theory Spec2Isabelle
  imports Main "HOL-Library.Sublist" "HOL-Library.Word"
begin

section \<open>Strings: the JavaScript string operations the layout code calls\<close>

text \<open>
  A JavaScript string is a sequence of UTF-16 code units, and the operations below work
  on code units. \<open>js\<close> gives the code units of a literal of the source.
\<close>

type_synonym jschar = "16 word"

type_synonym jsstring = "jschar list"

definition js :: "string \<Rightarrow> jsstring" where
  "js s = map of_char s"

definition newline :: jschar where
  "newline = 0x0A"

text \<open>
  The class \<open>\s\<close> of a regular expression, which is also what \<open>trim\<close> strips: the
  white space and line terminators of ECMAScript. They are tab, line feed, vertical tab,
  form feed, carriage return, space, U+00A0, U+1680, U+2000 to U+200A, U+2028, U+2029,
  U+202F, U+205F, U+3000 and U+FEFF.
\<close>

definition is_space :: "jschar \<Rightarrow> bool" where
  "is_space c =
     (c = 0x09 \<or> c = 0x0A \<or> c = 0x0B \<or> c = 0x0C \<or> c = 0x0D \<or> c = 0x20 \<or>
      c = 0xA0 \<or> c = 0x1680 \<or> (0x2000 \<le> c \<and> c \<le> 0x200A) \<or>
      c = 0x2028 \<or> c = 0x2029 \<or> c = 0x202F \<or> c = 0x205F \<or> c = 0x3000 \<or>
      c = 0xFEFF)"

text \<open>The code units that the source names in its patterns.\<close>

abbreviation space_unit :: jschar where
  "space_unit \<equiv> 0x20"

abbreviation hash_unit :: jschar where
  "hash_unit \<equiv> 0x23"

abbreviation quote_unit :: jschar where
  "quote_unit \<equiv> 0x22"

abbreviation full_stop :: jschar where
  "full_stop \<equiv> 0x2E"

abbreviation exclamation_mark :: jschar where
  "exclamation_mark \<equiv> 0x21"

abbreviation question_mark :: jschar where
  "question_mark \<equiv> 0x3F"

text \<open>\<open>s.trim()\<close>\<close>

definition trim :: "jsstring \<Rightarrow> jsstring" where
  "trim s = rev (dropWhile is_space (rev (dropWhile is_space s)))"

text \<open>\<open>s.startsWith(p)\<close>\<close>

definition starts_with :: "jsstring \<Rightarrow> jsstring \<Rightarrow> bool" where
  "starts_with p s = (take (length p) s = p)"

text \<open>\<open>s.indexOf(c)\<close>; \<open>None\<close> is the result \<open>-1\<close>.\<close>

fun index_of :: "jschar \<Rightarrow> jsstring \<Rightarrow> nat option" where
  "index_of c [] = None"
| "index_of c (x # xs) =
     (if x = c then Some 0 else map_option Suc (index_of c xs))"

text \<open>
  One attempt of the regular expression \<open>/\n##\s+/\<close> at the head of a string: the
  text after the match, or \<open>None\<close>. The quantifier is greedy and nothing follows it,
  so the match takes every whitespace character after the two hashes.
\<close>

fun match_marker :: "jsstring \<Rightarrow> jsstring option" where
  "match_marker (c1 # c2 # c3 # c4 # rest) =
     (if c1 = newline \<and> c2 = hash_unit \<and> c3 = hash_unit \<and> is_space c4
      then Some (dropWhile is_space rest) else None)"
| "match_marker _ = None"

lemma match_marker_shorter:
  "match_marker s = Some r \<Longrightarrow> length r < length s"
proof (induction s rule: match_marker.induct)
  case (1 c1 c2 c3 c4 rest)
  have "length (dropWhile is_space rest) \<le> length rest"
    by (rule length_dropWhile_le)
  with 1 show ?case by (auto split: if_splits)
qed simp_all

text \<open>
  \<open>s.split(/\n##\s+/)\<close>: scan from the left; at a match close the current piece and
  continue after the match, otherwise move one character on. The first argument is the
  current piece, reversed.
\<close>

function split_marker :: "jsstring \<Rightarrow> jsstring \<Rightarrow> jsstring list" where
  "split_marker acc [] = [rev acc]"
| "split_marker acc (c # cs) =
     (case match_marker (c # cs) of
        Some rest \<Rightarrow> rev acc # split_marker [] rest
      | None \<Rightarrow> split_marker (c # acc) cs)"
  by pat_completeness auto
termination
  by (relation "measure (\<lambda>(acc, s). length s)")
     (auto dest: match_marker_shorter)

text \<open>
  \<open>s.split(' ')\<close>: the pieces between single spaces. The result is never the empty
  list, so the second branch of the \<open>case\<close> is not reached.
\<close>

fun split_space :: "jsstring \<Rightarrow> jsstring list" where
  "split_space [] = [[]]"
| "split_space (c # cs) =
     (if c = space_unit then [] # split_space cs
      else (case split_space cs of
              w # ws \<Rightarrow> (c # w) # ws
            | [] \<Rightarrow> [[c]]))"

text \<open>\<open>ws.join(' ')\<close>\<close>

fun join_space :: "jsstring list \<Rightarrow> jsstring" where
  "join_space [] = []"
| "join_space [w] = w"
| "join_space (w # v # ws) = w @ space_unit # join_space (v # ws)"

text \<open>\<open>title.replace(/^#+\s*/, '')\<close>\<close>

definition clean_title :: "jsstring \<Rightarrow> jsstring" where
  "clean_title t =
     (if starts_with (js ''#'') t
      then dropWhile is_space (dropWhile (\<lambda>c. c = hash_unit) t) else t)"

text \<open>\<open>lastWord.match(/[.!?]"?$/)\<close>, as a truth value.\<close>

definition is_final_punct :: "jschar \<Rightarrow> bool" where
  "is_final_punct c = (c = full_stop \<or> c = exclamation_mark \<or> c = question_mark)"

fun ends_sentence_rev :: "jsstring \<Rightarrow> bool" where
  "ends_sentence_rev [] = False"
| "ends_sentence_rev [c] = is_final_punct c"
| "ends_sentence_rev (c # d # _) =
     (is_final_punct c \<or> (c = quote_unit \<and> is_final_punct d))"

definition ends_sentence :: "jsstring \<Rightarrow> bool" where
  "ends_sentence w = ends_sentence_rev (rev w)"

text \<open>A number inside a template literal: its decimal digits.\<close>

definition digit_char :: "nat \<Rightarrow> jschar" where
  "digit_char d = js ''0123456789'' ! d"

fun show_nat :: "nat \<Rightarrow> jsstring" where
  "show_nat n =
     (if n < 10 then [digit_char n] else show_nat (n div 10) @ [digit_char (n mod 10)])"

declare show_nat.simps [simp del]

section \<open>Data model (types.ts, BookLayout.tsx)\<close>

datatype Tone = brave | cautious | witty | romantic | aggressive | neutral

record Choice =
  choice_id :: jsstring
  choice_text :: jsstring
  tone :: Tone

text \<open>The fields of a story node that the layout reads.\<close>

record StoryNode =
  node_id :: jsstring
  chapterTitle :: jsstring
  content :: jsstring
  choices :: "Choice list"
  backgroundImagePrompt :: "jsstring option"

datatype GameMode = INTERACTIVE | LINEAR

datatype PageType = TEXT | IMAGE_AND_TEXT | FULL_IMAGE

text \<open>An optional field that a page literal does not set is \<open>None\<close>.\<close>

record BookPage =
  page_id :: jsstring
  page_type :: PageType
  page_content :: jsstring
  imagePrompt :: "jsstring option"
  page_choices :: "Choice list option"
  pageNumber :: nat
  page_chapterTitle :: "jsstring option"
  isChapterStart :: "bool option"

record ChapterSection =
  title :: jsstring
  body :: jsstring
  isNewChapter :: bool

definition WORDS_PER_PAGE :: nat where
  "WORDS_PER_PAGE = 130"

section \<open>Chapter splitting\<close>

definition rawSections :: "StoryNode \<Rightarrow> jsstring list" where
  "rawSections node = split_marker [] (newline # content node)"

text \<open>The callback of \<open>rawSections.map\<close>; \<open>None\<close> is its \<open>null\<close>.\<close>

definition make_section :: "StoryNode \<Rightarrow> nat \<Rightarrow> jsstring \<Rightarrow> ChapterSection option" where
  "make_section node idx sectionText =
     (if idx = 0 \<and> trim sectionText = [] then None
      else
        let firstNewLine = index_of newline sectionText in
        if idx > 0 \<or> (idx = 0 \<and> starts_with (js ''##'') (trim (content node)))
        then (case firstNewLine of
                Some k \<Rightarrow> Some \<lparr>title = clean_title (trim (take k sectionText)),
                                body = trim (drop k sectionText), isNewChapter = True\<rparr>
              | None \<Rightarrow> Some \<lparr>title = clean_title (trim sectionText),
                              body = [], isNewChapter = True\<rparr>)
        else Some \<lparr>title = clean_title (chapterTitle node),
                   body = sectionText, isNewChapter = False\<rparr>)"

definition keep_section :: "ChapterSection option \<Rightarrow> bool" where
  "keep_section s =
     (case s of None \<Rightarrow> False | Some x \<Rightarrow> body x \<noteq> [] \<or> isNewChapter x)"

definition sections :: "StoryNode \<Rightarrow> ChapterSection list" where
  "sections node =
     map the (filter keep_section
       (map (\<lambda>(idx, sectionText). make_section node idx sectionText)
            (enumerate 0 (rawSections node))))"

section \<open>Pagination\<close>

record pstate =
  generatedPages :: "BookPage list"
  globalPageCount :: nat

text \<open>
  \<open>generatedPages.push({..., pageNumber: globalPageCount++})\<close>: the page literal is
  built from the counter's value before the increment.
\<close>

definition push_page :: "(nat \<Rightarrow> BookPage) \<Rightarrow> pstate \<Rightarrow> pstate" where
  "push_page mk st =
     \<lparr>generatedPages = generatedPages st @ [mk (globalPageCount st)],
      globalPageCount = Suc (globalPageCount st)\<rparr>"

definition visual_page :: "StoryNode \<Rightarrow> jsstring \<Rightarrow> nat \<Rightarrow> BookPage" where
  "visual_page node prompt n =
     \<lparr>page_id = node_id node @ js ''-visual'', page_type = FULL_IMAGE, page_content = [],
      imagePrompt = Some prompt, page_choices = None, pageNumber = n,
      page_chapterTitle = Some (chapterTitle node), isChapterStart = None\<rparr>"

definition closed_page ::
  "StoryNode \<Rightarrow> nat \<Rightarrow> ChapterSection \<Rightarrow> jsstring list \<Rightarrow> bool \<Rightarrow> nat \<Rightarrow> BookPage" where
  "closed_page node sIdx section currentChunk isFirstPageOfSection n =
     \<lparr>page_id = node_id node @ js ''-sec'' @ show_nat sIdx @ js ''-pg'' @ show_nat n,
      page_type = TEXT, page_content = join_space currentChunk,
      imagePrompt = None, page_choices = None, pageNumber = n,
      page_chapterTitle = Some (title section),
      isChapterStart = Some (isFirstPageOfSection \<and> isNewChapter section)\<rparr>"

definition end_page ::
  "StoryNode \<Rightarrow> nat \<Rightarrow> ChapterSection \<Rightarrow> jsstring list \<Rightarrow> bool \<Rightarrow> bool \<Rightarrow> nat \<Rightarrow> BookPage" where
  "end_page node sIdx section currentChunk isFirstPageOfSection isLastSection n =
     \<lparr>page_id = node_id node @ js ''-sec'' @ show_nat sIdx @ js ''-end'',
      page_type = TEXT, page_content = join_space currentChunk,
      imagePrompt = None,
      page_choices = (if isLastSection then Some (choices node) else None),
      pageNumber = n,
      page_chapterTitle = Some (title section),
      isChapterStart = Some (isFirstPageOfSection \<and> isNewChapter section)\<rparr>"

definition filler_page :: "nat \<Rightarrow> BookPage" where
  "filler_page n =
     \<lparr>page_id = js ''filler-end'', page_type = TEXT, page_content = [],
      imagePrompt = None, page_choices = None, pageNumber = n,
      page_chapterTitle = Some [], isChapterStart = None\<rparr>"

definition page_limit :: "bool \<Rightarrow> ChapterSection \<Rightarrow> nat" where
  "page_limit isFirstPageOfSection section =
     (if isFirstPageOfSection \<and> isNewChapter section
      then WORDS_PER_PAGE - 50 else WORDS_PER_PAGE)"

text \<open>
  The \<open>for\<close> loop over the words of one section. The loop state is the open chunk,
  the first-page flag and the pages produced so far with their counter.
\<close>

fun pack_words ::
  "StoryNode \<Rightarrow> nat \<Rightarrow> ChapterSection \<Rightarrow> jsstring list \<Rightarrow>
   jsstring list \<times> bool \<times> pstate \<Rightarrow> jsstring list \<times> bool \<times> pstate" where
  "pack_words node sIdx section [] st = st"
| "pack_words node sIdx section (w # ws) (currentChunk, isFirstPageOfSection, st) =
     (let chunk = currentChunk @ [w];
          limit = page_limit isFirstPageOfSection section
      in if length chunk \<ge> limit \<and> (ends_sentence w \<or> length chunk > limit + 20)
         then pack_words node sIdx section ws
                ([], False,
                 push_page (closed_page node sIdx section chunk isFirstPageOfSection) st)
         else pack_words node sIdx section ws (chunk, isFirstPageOfSection, st))"

text \<open>
  The same loop with its index, as the source writes it. \<open>words[i]\<close> is a read that
  gives \<open>undefined\<close> out of range, and \<open>undefined\<close> has no \<open>match\<close> method: a
  read out of range is the failure \<open>TypeError\<close>.
\<close>

datatype js_error = TypeError

text \<open>\<open>xs[i]\<close>; \<open>None\<close> is \<open>undefined\<close>.\<close>

definition nth_opt :: "'a list \<Rightarrow> nat \<Rightarrow> 'a option" where
  "nth_opt xs i = (if i < length xs then Some (xs ! i) else None)"

function pack_loop ::
  "StoryNode \<Rightarrow> nat \<Rightarrow> ChapterSection \<Rightarrow> jsstring list \<Rightarrow> nat \<Rightarrow>
   jsstring list \<times> bool \<times> pstate \<Rightarrow> js_error + jsstring list \<times> bool \<times> pstate" where
  "pack_loop node sIdx section words i (currentChunk, isFirstPageOfSection, st) =
     (if i < length words
      then (case nth_opt words i of
              None \<Rightarrow> Inl TypeError
            | Some w \<Rightarrow>
                (let chunk = currentChunk @ [w];
                     limit = page_limit isFirstPageOfSection section
                 in if length chunk \<ge> limit \<and> (ends_sentence w \<or> length chunk > limit + 20)
                    then pack_loop node sIdx section words (Suc i)
                           ([], False,
                            push_page
                              (closed_page node sIdx section chunk isFirstPageOfSection) st)
                    else pack_loop node sIdx section words (Suc i)
                           (chunk, isFirstPageOfSection, st)))
      else Inr (currentChunk, isFirstPageOfSection, st))"
  by pat_completeness auto
termination
  by (relation "measure (\<lambda>(node, sIdx, section, words, i, s). length words - i)") auto

declare pack_loop.simps [simp del]

text \<open>The callback of \<open>sections.forEach\<close>; \<open>n\<close> is \<open>sections.length\<close>.\<close>

definition process_section ::
  "StoryNode \<Rightarrow> nat \<Rightarrow> pstate \<Rightarrow> nat \<times> ChapterSection \<Rightarrow> pstate" where
  "process_section node n st x =
     (case x of (sIdx, section) \<Rightarrow>
        (case pack_words node sIdx section (split_space (body section)) ([], True, st) of
           (currentChunk, isFirstPageOfSection, st') \<Rightarrow>
             if length currentChunk > 0 \<or> (isFirstPageOfSection \<and> isNewChapter section)
             then push_page (end_page node sIdx section currentChunk isFirstPageOfSection
                               (sIdx = n - 1)) st'
             else st'))"

text \<open>The callback of \<open>effectiveHistory.forEach\<close>. An absent or empty prompt is falsy.\<close>

definition process_node :: "GameMode \<Rightarrow> pstate \<Rightarrow> nat \<times> StoryNode \<Rightarrow> pstate" where
  "process_node gameMode st x =
     (case x of (nodeIndex, node) \<Rightarrow>
        let st1 = (case backgroundImagePrompt node of
                     None \<Rightarrow> st
                   | Some p \<Rightarrow>
                       if p \<noteq> [] \<and> (nodeIndex = 0 \<or> gameMode = INTERACTIVE)
                       then push_page (visual_page node p) st
                       else st);
            secs = sections node
        in foldl (process_section node (length secs)) st1 (enumerate 0 secs))"

definition init_state :: pstate where
  "init_state = \<lparr>generatedPages = [], globalPageCount = 1\<rparr>"

text \<open>The state after the loop over the history, before the parity padding.\<close>

definition generate :: "GameMode \<Rightarrow> StoryNode list \<Rightarrow> pstate" where
  "generate gameMode effectiveHistory =
     foldl (process_node gameMode) init_state (enumerate 0 effectiveHistory)"

definition paginate :: "GameMode \<Rightarrow> StoryNode list \<Rightarrow> BookPage list" where
  "paginate gameMode effectiveHistory =
     (let st = generate gameMode effectiveHistory
      in if length (generatedPages st) mod 2 \<noteq> 0
         then generatedPages (push_page filler_page st)
         else generatedPages st)"

definition effectiveHistory :: "StoryNode list \<Rightarrow> StoryNode \<Rightarrow> StoryNode list" where
  "effectiveHistory storyHistory currentNode =
     (if length storyHistory > 0 then storyHistory else [currentNode])"

section \<open>Spread navigation\<close>

text \<open>
  \<open>handleNextFlip\<close> and \<open>handlePrevFlip\<close> as functions of \<open>pages.length\<close> and
  \<open>currentPageIndex\<close>, returning the new index.
\<close>

definition handleNextFlip :: "nat \<Rightarrow> int \<Rightarrow> int" where
  "handleNextFlip pagesLength currentPageIndex =
     (if currentPageIndex < int pagesLength - 2 then currentPageIndex + 2
      else currentPageIndex)"

definition handlePrevFlip :: "int \<Rightarrow> int" where
  "handlePrevFlip currentPageIndex =
     (if currentPageIndex > 0 then currentPageIndex - 2 else currentPageIndex)"

section \<open>Character merge (App.tsx)\<close>

text \<open>
  A \<open>Partial<Character>\<close>: every field may be absent. The collection holds the same
  objects, since \<open>update as Character\<close> is an unchecked cast.
\<close>

record Character =
  name :: "jsstring option"
  role :: "jsstring option"
  affinity :: "int option"
  status :: "jsstring option"
  description :: "jsstring option"

text \<open>\<open>xs.findIndex(p)\<close>; \<open>None\<close> is the result \<open>-1\<close>.\<close>

fun findIndex :: "('a \<Rightarrow> bool) \<Rightarrow> 'a list \<Rightarrow> nat option" where
  "findIndex p [] = None"
| "findIndex p (x # xs) = (if p x then Some 0 else map_option Suc (findIndex p xs))"

text \<open>One field of \<open>{ ...a, ...b }\<close>.\<close>

definition over :: "'a option \<Rightarrow> 'a option \<Rightarrow> 'a option" where
  "over a b = (case b of None \<Rightarrow> a | Some v \<Rightarrow> Some v)"

definition spread :: "Character \<Rightarrow> Character \<Rightarrow> Character" where
  "spread a b =
     \<lparr>name = over (name a) (name b), role = over (role a) (role b),
      affinity = over (affinity a) (affinity b), status = over (status a) (status b),
      description = over (description a) (description b)\<rparr>"

text \<open>A string used as a condition: absent and empty are falsy.\<close>

definition truthy :: "jsstring option \<Rightarrow> bool" where
  "truthy s = (case s of None \<Rightarrow> False | Some v \<Rightarrow> v \<noteq> [])"

text \<open>The callback of \<open>updates.forEach\<close>.\<close>

definition apply_update :: "Character list \<Rightarrow> Character \<Rightarrow> Character list" where
  "apply_update newChars update =
     (case findIndex (\<lambda>c. name c = name update) newChars of
        Some existingIndex \<Rightarrow>
          newChars[existingIndex := spread (newChars ! existingIndex) update]
      | None \<Rightarrow>
          if truthy (name update) \<and> truthy (role update) \<and> affinity update \<noteq> None
          then newChars @ [update] else newChars)"

definition updateCharacters :: "Character list \<Rightarrow> Character list \<Rightarrow> Character list" where
  "updateCharacters currentChars updates = foldl apply_update currentChars updates"

section \<open>Notions used in the statements\<close>

text \<open>A token without a space, as every piece of \<open>split(' ')\<close> is.\<close>

definition no_space :: "jsstring \<Rightarrow> bool" where
  "no_space w = (space_unit \<notin> set w)"

text \<open>
  The invariant of the page counter: it is one more than the number of pages, and the
  pages are numbered from 1 in order.
\<close>

definition numbered :: "pstate \<Rightarrow> bool" where
  "numbered st =
     (globalPageCount st = Suc (length (generatedPages st)) \<and>
      map pageNumber (generatedPages st) = [1..<globalPageCount st])"

text \<open>No page built by the loop over the history has the id of the filler page.\<close>

definition unfilled :: "pstate \<Rightarrow> bool" where
  "unfilled st = list_all (\<lambda>p. page_id p \<noteq> js ''filler-end'') (generatedPages st)"

text \<open>A page list without its filler page.\<close>

definition without_filler :: "BookPage list \<Rightarrow> BookPage list" where
  "without_filler ps = filter (\<lambda>p. page_id p \<noteq> js ''filler-end'') ps"

text \<open>The words of a page: its content split on single spaces.\<close>

definition tokens :: "BookPage \<Rightarrow> jsstring list" where
  "tokens p = split_space (page_content p)"

text \<open>
  \<open>currentChunk\<close> when the loop over the words of a section ends: the tokens after the
  last page closed inside the loop. It does not depend on the pages produced before.
\<close>

definition open_chunk :: "StoryNode \<Rightarrow> nat \<Rightarrow> ChapterSection \<Rightarrow> jsstring list" where
  "open_chunk node sIdx section =
     fst (pack_words node sIdx section (split_space (body section)) ([], True, init_state))"

text \<open>
  The pages produced from the fragment at position \<open>k\<close>: those that the loop adds between
  the first \<open>k\<close> and the first \<open>k + 1\<close> fragments of the history.
\<close>

definition node_pages :: "GameMode \<Rightarrow> StoryNode list \<Rightarrow> nat \<Rightarrow> BookPage list" where
  "node_pages gm h k =
     drop (length (generatedPages (generate gm (take k h))))
          (generatedPages (generate gm (take (Suc k) h)))"

text \<open>The illustration page of a fragment, if it gets one, numbered \<open>n\<close>.\<close>

definition visual_part :: "GameMode \<Rightarrow> nat \<Rightarrow> StoryNode \<Rightarrow> nat \<Rightarrow> BookPage list" where
  "visual_part gm nodeIndex node n =
     (case backgroundImagePrompt node of
        None \<Rightarrow> []
      | Some p \<Rightarrow> if p \<noteq> [] \<and> (nodeIndex = 0 \<or> gm = INTERACTIVE)
                  then [visual_page node p n] else [])"

text \<open>A marker match somewhere in a string.\<close>

fun has_marker :: "jsstring \<Rightarrow> bool" where
  "has_marker [] = False"
| "has_marker (c # cs) = (match_marker (c # cs) \<noteq> None \<or> has_marker cs)"

subsection \<open>The packing rule as the specification words it\<close>

text \<open>
  A token ends a sentence when it ends in \<open>.\<close>, \<open>!\<close> or \<open>?\<close>, optionally followed by a
  closing quote. The budget is 130 tokens, and 50 less on the first page of a new chapter.
  A buffer closes once it has reached the budget and either its last token ends a sentence
  or it is more than 20 tokens over the budget. A page is the shortest buffer that closes;
  what remains at the end of the section is the last page.
\<close>

definition spec_sentence_end :: "jsstring \<Rightarrow> bool" where
  "spec_sentence_end w =
     list_ex (\<lambda>p. suffix [p] w \<or> suffix [p, quote_unit] w) (js ''.!?'')"

definition spec_budget :: "bool \<Rightarrow> nat" where
  "spec_budget chapterFirst = (if chapterFirst then 130 - 50 else 130)"

definition spec_closes :: "nat \<Rightarrow> jsstring list \<Rightarrow> bool" where
  "spec_closes budget buf =
     (buf \<noteq> [] \<and> budget \<le> length buf \<and>
      (spec_sentence_end (last buf) \<or> budget + 20 < length buf))"

lemma find_from_one:
  "find P [1..<Suc L] = Some m \<Longrightarrow> 0 < m \<and> m \<le> L \<and> P m"
  by (auto simp: find_Some_iff nth_upt simp del: upt_Suc)

function spec_pack :: "nat \<Rightarrow> jsstring list \<Rightarrow> jsstring list list" where
  "spec_pack budget ws =
     (if ws = [] then []
      else case find (\<lambda>m. spec_closes budget (take m ws)) [1..<Suc (length ws)] of
             None \<Rightarrow> [ws]
           | Some m \<Rightarrow> take m ws # spec_pack (spec_budget False) (drop m ws))"
  by pat_completeness auto

termination
proof (relation "measure (\<lambda>(budget, ws). length ws)")
  show "wf (measure (\<lambda>(budget, ws). length ws))"
    by simp
next
  fix budget :: nat and ws :: "jsstring list" and m
  assume "ws \<noteq> []"
    and "find (\<lambda>m. spec_closes budget (take m ws)) [1..<Suc (length ws)] = Some m"
  then have "0 < m"
    using find_from_one [of "\<lambda>m. spec_closes budget (take m ws)" "length ws" m] by simp
  with \<open>ws \<noteq> []\<close> show "((spec_budget False, drop m ws), budget, ws)
          \<in> measure (\<lambda>(budget, ws). length ws)"
    by simp
qed

declare spec_pack.simps [simp del]

section \<open>Lemmas\<close>

lemma split_space_nonempty [simp]: "split_space s \<noteq> []"
  by (induction s) (auto split: list.splits)

lemma split_space_no_space: "list_all no_space (split_space s)"
proof (induction s)
  case Nil
  then show ?case by (simp add: no_space_def)
next
  case (Cons c cs)
  then show ?case
    by (cases "split_space cs") (auto simp: no_space_def)
qed

lemma split_space_word: "no_space w \<Longrightarrow> split_space w = [w]"
  by (induction w) (auto simp: no_space_def)

lemma split_space_append:
  "no_space w \<Longrightarrow> split_space (w @ 0x20 # s) = w # split_space s"
  by (induction w) (auto simp: no_space_def)

lemma split_join:
  "ws \<noteq> [] \<Longrightarrow> list_all no_space ws \<Longrightarrow> split_space (join_space ws) = ws"
proof (induction ws rule: join_space.induct)
  case 1
  then show ?case by simp
next
  case (2 w)
  then show ?case by (simp add: split_space_word)
next
  case (3 w v ws)
  then show ?case by (simp add: split_space_append)
qed

lemma gp_push [simp]:
  "generatedPages (push_page mk st) = generatedPages st @ [mk (globalPageCount st)]"
  "globalPageCount (push_page mk st) = Suc (globalPageCount st)"
  by (simp_all add: push_page_def)

lemma pn_pages [simp]:
  "pageNumber (visual_page node p n) = n"
  "pageNumber (closed_page node sIdx sec c f n) = n"
  "pageNumber (end_page node sIdx sec c f l n) = n"
  "pageNumber (filler_page n) = n"
  by (simp_all add: visual_page_def closed_page_def end_page_def filler_page_def)

lemma numbered_init: "numbered init_state"
  by (simp add: numbered_def init_state_def)

lemma numbered_push:
  "numbered st \<Longrightarrow> (\<And>n. pageNumber (mk n) = n) \<Longrightarrow> numbered (push_page mk st)"
  by (simp add: numbered_def)

lemma numbered_pack:
  "numbered st \<Longrightarrow>
   numbered (snd (snd (pack_words node sIdx sec ws (chunk, first, st))))"
proof (induction ws arbitrary: chunk first st)
  case Nil
  then show ?case by simp
next
  case (Cons w ws)
  then show ?case
    by (simp add: Let_def numbered_push)
qed

lemma numbered_section:
  "numbered st \<Longrightarrow> numbered (process_section node n st x)"
proof -
  assume a: "numbered st"
  obtain sIdx sec where x: "x = (sIdx, sec)" by (cases x)
  obtain c f st' where p:
    "pack_words node sIdx sec (split_space (body sec)) ([], True, st) = (c, f, st')"
    by (cases "pack_words node sIdx sec (split_space (body sec)) ([], True, st)")
  from numbered_pack [OF a, of node sIdx sec "split_space (body sec)" "[]" True] p
  have "numbered st'" by simp
  then show ?thesis
    by (simp add: process_section_def x p numbered_push)
qed

lemma foldl_preserves:
  "P s \<Longrightarrow> (\<And>s x. P s \<Longrightarrow> P (f s x)) \<Longrightarrow> P (foldl f s xs)"
  by (induction xs arbitrary: s) simp_all

lemma numbered_node:
  assumes "numbered st"
  shows "numbered (process_node gm st x)"
proof -
  obtain nodeIndex node where x: "x = (nodeIndex, node)" by (cases x)
  define st1 where "st1 =
    (case backgroundImagePrompt node of None \<Rightarrow> st
     | Some p \<Rightarrow> if p \<noteq> [] \<and> (nodeIndex = 0 \<or> gm = INTERACTIVE)
                then push_page (visual_page node p) st else st)"
  have "numbered st1"
    using assms by (simp add: st1_def numbered_push split: option.splits)
  then have "numbered (foldl (process_section node (length (sections node))) st1
                         (enumerate 0 (sections node)))"
    by (rule foldl_preserves [where P = numbered]) (rule numbered_section)
  then show ?thesis
    by (simp add: process_node_def x st1_def Let_def)
qed

lemma numbered_generate: "numbered (generate gm h)"
  unfolding generate_def
  by (rule foldl_preserves [where P = numbered, OF numbered_init]) (rule numbered_node)

lemma paginate_eq:
  "paginate gm h =
     generatedPages (generate gm h) @
     (if odd (length (generatedPages (generate gm h)))
      then [filler_page (Suc (length (generatedPages (generate gm h))))] else [])"
  using numbered_generate [of gm h]
  by (auto simp: paginate_def Let_def numbered_def odd_iff_mod_2_eq_one)

lemma show_nat_last: "show_nat n \<noteq> [] \<and> last (show_nat n) = digit_char (n mod 10)"
  by (subst (1 2) show_nat.simps) simp

lemma digit_char_cases:
  assumes "d < 10"
  shows "digit_char d \<in> set (js ''0123456789'')"
  unfolding digit_char_def using assms by (intro nth_mem) (simp add: js_def)

lemma digit_not_letter: "digit_char (n mod 10) \<noteq> 0x72 \<and> digit_char (n mod 10) \<noteq> 0x64"
proof -
  have "digit_char (n mod 10) \<in> set (js ''0123456789'')"
    by (rule digit_char_cases) simp
  then show ?thesis by (auto simp: js_def)
qed

lemma visual_id: "page_id (visual_page node p n) \<noteq> js ''filler-end''"
proof
  assume "page_id (visual_page node p n) = js ''filler-end''"
  then have "last (node_id node @ js ''-visual'') = last (js ''filler-end'')"
    by (simp add: visual_page_def)
  then show False by (simp add: js_def)
qed

lemma closed_id: "page_id (closed_page node sIdx sec c f n) \<noteq> js ''filler-end''"
proof
  assume "page_id (closed_page node sIdx sec c f n) = js ''filler-end''"
  then have "last (node_id node @ js ''-sec'' @ show_nat sIdx @ js ''-pg'' @ show_nat n)
             = last (js ''filler-end'')"
    by (simp add: closed_page_def)
  then have "last (show_nat n) = 0x64"
    using show_nat_last [of n] by (simp add: js_def)
  then show False using show_nat_last [of n] digit_not_letter [of n] by simp
qed

lemma end_id: "page_id (end_page node sIdx sec c f l n) \<noteq> js ''filler-end''"
proof
  assume "page_id (end_page node sIdx sec c f l n) = js ''filler-end''"
  then have "butlast (butlast (butlast (butlast
               ((node_id node @ js ''-sec'' @ show_nat sIdx) @ js ''-end''))))
             = butlast (butlast (butlast (butlast (js ''filler-end''))))"
    by (simp add: end_page_def)
  then have "node_id node @ js ''-sec'' @ show_nat sIdx = js ''filler''"
    by (simp add: butlast_append js_def)
  then have "last (node_id node @ js ''-sec'' @ show_nat sIdx) = last (js ''filler'')"
    by simp
  then have "last (show_nat sIdx) = 0x72"
    using show_nat_last [of sIdx] by (simp add: js_def)
  then show False using show_nat_last [of sIdx] digit_not_letter [of sIdx] by simp
qed

lemma unfilled_push:
  "unfilled st \<Longrightarrow> (\<And>n. page_id (mk n) \<noteq> js ''filler-end'') \<Longrightarrow> unfilled (push_page mk st)"
  by (simp add: unfilled_def)

lemma unfilled_pack:
  "unfilled st \<Longrightarrow>
   unfilled (snd (snd (pack_words node sIdx sec ws (chunk, first, st))))"
proof (induction ws arbitrary: chunk first st)
  case Nil
  then show ?case by simp
next
  case (Cons w ws)
  then show ?case
    by (simp add: Let_def unfilled_push closed_id)
qed

lemma unfilled_section:
  assumes a: "unfilled st"
  shows "unfilled (process_section node n st x)"
proof -
  obtain sIdx sec where x: "x = (sIdx, sec)" by (cases x)
  obtain c f st' where p:
    "pack_words node sIdx sec (split_space (body sec)) ([], True, st) = (c, f, st')"
    by (cases "pack_words node sIdx sec (split_space (body sec)) ([], True, st)")
  from unfilled_pack [OF a, of node sIdx sec "split_space (body sec)" "[]" True] p
  have "unfilled st'" by simp
  then show ?thesis
    by (simp add: process_section_def x p unfilled_push end_id)
qed

lemma unfilled_node:
  assumes "unfilled st"
  shows "unfilled (process_node gm st x)"
proof -
  obtain nodeIndex node where x: "x = (nodeIndex, node)" by (cases x)
  define st1 where "st1 =
    (case backgroundImagePrompt node of None \<Rightarrow> st
     | Some p \<Rightarrow> if p \<noteq> [] \<and> (nodeIndex = 0 \<or> gm = INTERACTIVE)
                then push_page (visual_page node p) st else st)"
  have "unfilled st1"
    using assms by (simp add: st1_def unfilled_push visual_id split: option.splits)
  then have "unfilled (foldl (process_section node (length (sections node))) st1
                         (enumerate 0 (sections node)))"
    by (rule foldl_preserves [where P = unfilled]) (rule unfilled_section)
  then show ?thesis
    by (simp add: process_node_def x st1_def Let_def)
qed

lemma unfilled_generate: "unfilled (generate gm h)"
  unfolding generate_def
  by (rule foldl_preserves [where P = unfilled]) 
     (simp_all add: unfilled_def init_state_def unfilled_node [unfolded unfilled_def])

lemma without_filler_paginate:
  "without_filler (paginate gm h) = generatedPages (generate gm h)"
  using unfilled_generate [of gm h]
  by (simp add: paginate_eq without_filler_def unfilled_def filler_page_def
                list_all_iff filter_id_conv)

lemma prefix_pack:
  "prefix (generatedPages st)
     (generatedPages (snd (snd (pack_words node sIdx sec ws (chunk, first, st)))))"
proof (induction ws arbitrary: chunk first st)
  case Nil
  then show ?case by simp
next
  case (Cons w ws)
  let ?st1 = "push_page (closed_page node sIdx sec (chunk @ [w]) first) st"
  have a: "prefix (generatedPages st) (generatedPages ?st1)"
    by simp
  have b: "prefix (generatedPages ?st1)
     (generatedPages (snd (snd (pack_words node sIdx sec ws ([], False, ?st1)))))"
    by (rule Cons.IH)
  have c: "prefix (generatedPages st)
     (generatedPages (snd (snd (pack_words node sIdx sec ws (chunk @ [w], first, st)))))"
    by (rule Cons.IH)
  from prefix_order.trans [OF a b] c show ?case
    by (simp add: Let_def)
qed

lemma prefix_section:
  "prefix (generatedPages st) (generatedPages (process_section node n st x))"
proof -
  obtain sIdx sec where x: "x = (sIdx, sec)" by (cases x)
  obtain c f st' where p:
    "pack_words node sIdx sec (split_space (body sec)) ([], True, st) = (c, f, st')"
    by (cases "pack_words node sIdx sec (split_space (body sec)) ([], True, st)")
  from prefix_pack [of st node sIdx sec "split_space (body sec)" "[]" True] p
  have "prefix (generatedPages st) (generatedPages st')" by simp
  then show ?thesis
    by (simp add: process_section_def x p prefix_prefix)
qed

lemma prefix_foldl:
  assumes "\<And>s x. prefix (g s) (g (f s x))"
  shows "prefix (g s) (g (foldl f s xs))"
proof (induction xs arbitrary: s)
  case Nil
  then show ?case by simp
next
  case (Cons x xs)
  from assms [of s x] Cons.IH [of "f s x"] show ?case
    by (simp add: prefix_order.trans)
qed

lemma prefix_node:
  "prefix (generatedPages st) (generatedPages (process_node gm st x))"
proof -
  obtain nodeIndex node where x: "x = (nodeIndex, node)" by (cases x)
  define st1 where "st1 =
    (case backgroundImagePrompt node of None \<Rightarrow> st
     | Some p \<Rightarrow> if p \<noteq> [] \<and> (nodeIndex = 0 \<or> gm = INTERACTIVE)
                then push_page (visual_page node p) st else st)"
  have 1: "prefix (generatedPages st) (generatedPages st1)"
    by (simp add: st1_def split: option.splits)
  have "prefix (generatedPages st1)
          (generatedPages (foldl (process_section node (length (sections node))) st1
                         (enumerate 0 (sections node))))"
    by (rule prefix_foldl) (rule prefix_section)
  with 1 have "prefix (generatedPages st)
          (generatedPages (foldl (process_section node (length (sections node))) st1
                         (enumerate 0 (sections node))))"
    by (rule prefix_order.trans)
  then show ?thesis
    by (simp add: process_node_def x st1_def Let_def)
qed

lemma generate_snoc:
  "generate gm (h @ [f]) = process_node gm (generate gm h) (length h, f)"
  by (simp add: generate_def enumerate_append_eq)

lemma closed_page_fields [simp]:
  "page_type (closed_page node sIdx sec c f n) = TEXT"
  "page_choices (closed_page node sIdx sec c f n) = None"
  "page_content (closed_page node sIdx sec c f n) = join_space c"
  by (simp_all add: closed_page_def)

lemma end_page_fields [simp]:
  "page_type (end_page node sIdx sec c f l n) = TEXT"
  "page_choices (end_page node sIdx sec c f l n) = (if l then Some (choices node) else None)"
  "page_content (end_page node sIdx sec c f l n) = join_space c"
  by (simp_all add: end_page_def)

lemma visual_page_fields [simp]:
  "page_type (visual_page node p n) = FULL_IMAGE"
  "page_choices (visual_page node p n) = None"
  by (simp_all add: visual_page_def)

lemma pack_emits:
  assumes "list_all no_space (chunk @ ws)"
  shows "\<exists>new.
     generatedPages (snd (snd (pack_words node sIdx sec ws (chunk, first, st))))
       = generatedPages st @ new \<and>
     list_all (\<lambda>p. page_type p = TEXT \<and> page_choices p = None) new \<and>
     concat (map tokens new) @ fst (pack_words node sIdx sec ws (chunk, first, st))
       = chunk @ ws"
  using assms
proof (induction ws arbitrary: chunk first st)
  case Nil
  then show ?case by simp
next
  case (Cons w ws)
  let ?chunk = "chunk @ [w]"
  let ?limit = "page_limit first sec"
  show ?case
  proof (cases "length ?chunk \<ge> ?limit \<and> (ends_sentence w \<or> length ?chunk > ?limit + 20)")
    case True
    let ?pg = "closed_page node sIdx sec ?chunk first (globalPageCount st)"
    let ?st1 = "push_page (closed_page node sIdx sec ?chunk first) st"
    have eq: "pack_words node sIdx sec (w # ws) (chunk, first, st)
              = pack_words node sIdx sec ws ([], False, ?st1)"
      using True by (auto simp: Let_def)
    from Cons.prems have ns: "list_all no_space ([] @ ws)" and nc: "list_all no_space ?chunk"
      by simp_all
    from Cons.IH [OF ns, of False ?st1] obtain new where
      n1: "generatedPages (snd (snd (pack_words node sIdx sec ws ([], False, ?st1))))
            = generatedPages ?st1 @ new"
      and n2: "list_all (\<lambda>p. page_type p = TEXT \<and> page_choices p = None) new"
      and n3: "concat (map tokens new) @ fst (pack_words node sIdx sec ws ([], False, ?st1))
               = [] @ ws"
      by blast
    have tk: "tokens ?pg = ?chunk"
      using nc by (simp add: tokens_def split_join)
    have "generatedPages (snd (snd (pack_words node sIdx sec (w # ws) (chunk, first, st))))
            = generatedPages st @ (?pg # new)"
      unfolding eq using n1 by simp
    moreover have "list_all (\<lambda>p. page_type p = TEXT \<and> page_choices p = None) (?pg # new)"
      using n2 by simp
    moreover have "concat (map tokens (?pg # new))
                     @ fst (pack_words node sIdx sec (w # ws) (chunk, first, st))
                   = chunk @ w # ws"
      unfolding eq using n3 tk by simp
    ultimately show ?thesis by blast
  next
    case False
    have eq: "pack_words node sIdx sec (w # ws) (chunk, first, st)
              = pack_words node sIdx sec ws (?chunk, first, st)"
      using False by (auto simp: Let_def)
    from Cons.prems have ns: "list_all no_space (?chunk @ ws)" by simp
    from Cons.IH [OF ns, of first st] show ?thesis
      unfolding eq by simp
  qed
qed

lemma pack_first_false:
  "\<not> fst (snd (pack_words node sIdx sec ws (chunk, False, st)))"
  by (induction ws arbitrary: chunk st) (simp_all add: Let_def)

lemma pack_leftover:
  "chunk \<noteq> [] \<or> ws \<noteq> [] \<Longrightarrow>
   fst (pack_words node sIdx sec ws (chunk, first, st)) \<noteq> [] \<or>
   \<not> fst (snd (pack_words node sIdx sec ws (chunk, first, st)))"
proof (induction ws arbitrary: chunk first st)
  case Nil
  then show ?case by simp
next
  case (Cons w ws)
  then show ?case
    by (simp add: Let_def pack_first_false)
qed

lemma pack_indep:
  "fst (pack_words node sIdx sec ws (chunk, first, st))
     = fst (pack_words node' sIdx' sec ws (chunk, first, st'))"
  by (induction ws arbitrary: chunk first st st') (auto simp: Let_def)

lemma section_emits:
  "\<exists>new.
     generatedPages (process_section node n st (sIdx, sec)) = generatedPages st @ new \<and>
     new \<noteq> [] \<and>
     list_all (\<lambda>p. page_type p = TEXT) new \<and>
     concat (map tokens new) = split_space (body sec) \<and>
     list_all (\<lambda>p. page_choices p = None) (butlast new) \<and>
     page_choices (last new) =
       (if sIdx = n - 1 \<and> open_chunk node sIdx sec \<noteq> [] then Some (choices node) else None)"
proof -
  let ?ws = "split_space (body sec)"
  obtain c f st' where p: "pack_words node sIdx sec ?ws ([], True, st) = (c, f, st')"
    by (cases "pack_words node sIdx sec ?ws ([], True, st)")
  have ns: "list_all no_space ([] @ ?ws)"
    by (simp add: split_space_no_space)
  from pack_emits [OF ns, of node sIdx sec True st] p obtain new where
    n1: "generatedPages st' = generatedPages st @ new"
    and n2: "list_all (\<lambda>p. page_type p = TEXT \<and> page_choices p = None) new"
    and n3: "concat (map tokens new) @ c = ?ws"
    by auto
  have oc: "open_chunk node sIdx sec = c"
    using pack_indep [of node sIdx sec ?ws "[]" True init_state node sIdx st] p
    by (simp add: open_chunk_def)
  have lo: "c \<noteq> [] \<or> \<not> f"
    using pack_leftover [of "[]" ?ws node sIdx sec True st] p by simp
  have nsc: "list_all no_space c"
  proof -
    have "list_all no_space (concat (map tokens new) @ c)"
      using n3 split_space_no_space [of "body sec"] by simp
    then show ?thesis by simp
  qed
  show ?thesis
  proof (cases "c = []")
    case True
    with lo have nf: "\<not> f" by simp
    have ps: "process_section node n st (sIdx, sec) = st'"
      using True nf by (simp add: process_section_def p)
    have "concat (map tokens new) \<noteq> []"
      using n3 True by simp
    then have ne: "new \<noteq> []"
      by auto
    have "list_all (\<lambda>p. page_choices p = None) new" "list_all (\<lambda>p. page_type p = TEXT) new"
      using n2 by (simp_all add: list_all_iff)
    moreover from this ne have "page_choices (last new) = None"
      by (simp add: list_all_iff)
    moreover from calculation have "list_all (\<lambda>p. page_choices p = None) (butlast new)"
      by (auto simp: list_all_iff dest: in_set_butlastD)
    ultimately show ?thesis
      using n1 n3 ne True oc by (auto simp: ps)
  next
    case False
    let ?pg = "end_page node sIdx sec c f (sIdx = n - 1) (globalPageCount st')"
    have ps: "process_section node n st (sIdx, sec)
              = push_page (end_page node sIdx sec c f (sIdx = n - 1)) st'"
      using False by (simp add: process_section_def p)
    have tk: "tokens ?pg = c"
      using False nsc by (simp add: tokens_def split_join)
    have "generatedPages (process_section node n st (sIdx, sec))
            = generatedPages st @ (new @ [?pg])"
      using n1 by (simp add: ps)
    moreover have "list_all (\<lambda>p. page_type p = TEXT) (new @ [?pg])"
      using n2 by (simp add: list_all_iff)
    moreover have "concat (map tokens (new @ [?pg])) = ?ws"
      using n3 tk by simp
    moreover have "list_all (\<lambda>p. page_choices p = None) (butlast (new @ [?pg]))"
      using n2 by (simp add: list_all_iff)
    moreover have "page_choices (last (new @ [?pg])) =
       (if sIdx = n - 1 \<and> open_chunk node sIdx sec \<noteq> [] then Some (choices node) else None)"
      using False oc by simp
    ultimately show ?thesis by blast
  qed
qed

lemma next_iter:
  assumes "even pc" "even i" "i \<le> int pc - 2"
  shows "(handleNextFlip pc ^^ n) i = min (i + 2 * int n) (int pc - 2)"
proof (induction n)
  case 0
  with assms show ?case by simp
next
  case (Suc n)
  from assms obtain a b where ab: "i = 2 * a" "int pc = 2 * b"
    by (metis evenE even_of_nat)
  show ?case
    using Suc ab by (simp add: handleNextFlip_def min_def; presburger)
qed

lemma prev_iter:
  assumes "even i" "0 \<le> i"
  shows "(handlePrevFlip ^^ n) i = max (i - 2 * int n) 0"
proof (induction n)
  case 0
  with assms show ?case by simp
next
  case (Suc n)
  from assms obtain a where ab: "i = 2 * a"
    by (metis evenE)
  show ?case
    using Suc ab by (simp add: handlePrevFlip_def max_def; presburger)
qed

lemma findIndex_Some:
  "findIndex p xs = Some i \<Longrightarrow> i < length xs \<and> p (xs ! i) \<and> (\<forall>j<i. \<not> p (xs ! j))"
proof (induction xs arbitrary: i)
  case Nil
  then show ?case by simp
next
  case (Cons x xs)
  show ?case
  proof (cases "p x")
    case True
    with Cons.prems show ?thesis by simp
  next
    case False
    with Cons.prems obtain k where k: "findIndex p xs = Some k" "i = Suc k"
      by auto
    from Cons.IH [OF k(1)] False k(2) show ?thesis
      by (auto simp: less_Suc_eq_0_disj)
  qed
qed

lemma findIndex_None: "(findIndex p xs = None) = (\<forall>x\<in>set xs. \<not> p x)"
  by (induction xs) auto

lemma sections_fold_emits:
  "j + length xs = n \<Longrightarrow>
   \<exists>new.
     generatedPages (foldl (process_section node n) st (enumerate j xs))
       = generatedPages st @ new \<and>
     length xs \<le> length new \<and>
     list_all (\<lambda>p. page_type p = TEXT) new \<and>
     concat (map tokens new) = concat (map (\<lambda>s. split_space (body s)) xs) \<and>
     list_all (\<lambda>p. page_choices p = None) (butlast new) \<and>
     (xs \<noteq> [] \<longrightarrow>
        page_choices (last new) =
          (if open_chunk node (n - 1) (last xs) \<noteq> [] then Some (choices node) else None))"
proof (induction xs arbitrary: j st)
  case Nil
  then show ?case by simp
next
  case (Cons x xs)
  from section_emits [of node n st j x] obtain new1 where
    a1: "generatedPages (process_section node n st (j, x)) = generatedPages st @ new1"
    and a2: "new1 \<noteq> []"
    and a3: "list_all (\<lambda>p. page_type p = TEXT) new1"
    and a4: "concat (map tokens new1) = split_space (body x)"
    and a5: "list_all (\<lambda>p. page_choices p = None) (butlast new1)"
    and a6: "page_choices (last new1) =
       (if j = n - 1 \<and> open_chunk node j x \<noteq> [] then Some (choices node) else None)"
    by blast
  let ?st1 = "process_section node n st (j, x)"
  from Cons.prems have j: "Suc j + length xs = n" by simp
  from Cons.IH [OF j, of ?st1] obtain new2 where
    b1: "generatedPages (foldl (process_section node n) ?st1 (enumerate (Suc j) xs))
       = generatedPages ?st1 @ new2"
    and b2: "length xs \<le> length new2"
    and b3: "list_all (\<lambda>p. page_type p = TEXT) new2"
    and b4: "concat (map tokens new2) = concat (map (\<lambda>s. split_space (body s)) xs)"
    and b5: "list_all (\<lambda>p. page_choices p = None) (butlast new2)"
    and b6: "xs \<noteq> [] \<longrightarrow>
        page_choices (last new2) =
          (if open_chunk node (n - 1) (last xs) \<noteq> [] then Some (choices node) else None)"
    by blast
  have c1: "generatedPages (foldl (process_section node n) st (enumerate j (x # xs)))
       = generatedPages st @ (new1 @ new2)"
    using a1 b1 by simp
  have c2: "length (x # xs) \<le> length (new1 @ new2)"
    using a2 b2 by (cases new1) simp_all
  have c3: "list_all (\<lambda>p. page_type p = TEXT) (new1 @ new2)"
    using a3 b3 by simp
  have c4: "concat (map tokens (new1 @ new2)) = concat (map (\<lambda>s. split_space (body s)) (x # xs))"
    using a4 b4 by simp
  show ?case
  proof (cases "xs = []")
    case True
    then have n2: "new2 = []"
      using b1 by simp
    from True Cons.prems have jn: "j = n - 1" by simp
    have "list_all (\<lambda>p. page_choices p = None) (butlast (new1 @ new2))"
      using a5 n2 by simp
    moreover have "page_choices (last (new1 @ new2)) =
          (if open_chunk node (n - 1) (last (x # xs)) \<noteq> [] then Some (choices node) else None)"
      using a6 n2 jn True by simp
    ultimately show ?thesis
      using c1 c2 c3 c4 by blast
  next
    case False
    then have ne2: "new2 \<noteq> []"
      using b2 by auto
    from False Cons.prems have jn: "j \<noteq> n - 1" by (cases xs) auto
    have all1: "list_all (\<lambda>p. page_choices p = None) new1"
    proof -
      have "list_all (\<lambda>p. page_choices p = None) (butlast new1 @ [last new1])"
        using a5 a6 jn by simp
      then show ?thesis
        using a2 by simp
    qed
    have "list_all (\<lambda>p. page_choices p = None) (butlast (new1 @ new2))"
      using all1 b5 ne2 by (simp add: butlast_append)
    moreover have "page_choices (last (new1 @ new2)) =
          (if open_chunk node (n - 1) (last (x # xs)) \<noteq> [] then Some (choices node) else None)"
      using b6 ne2 False by simp
    ultimately show ?thesis
      using c1 c2 c3 c4 by blast
  qed
qed

lemma node_emits:
  "\<exists>new.
     generatedPages (process_node gm st (i, node))
       = generatedPages st @ visual_part gm i node (globalPageCount st) @ new \<and>
     length (sections node) \<le> length new \<and>
     list_all (\<lambda>p. page_type p = TEXT) new \<and>
     concat (map tokens new) = concat (map (\<lambda>s. split_space (body s)) (sections node)) \<and>
     list_all (\<lambda>p. page_choices p = None) (butlast new) \<and>
     (sections node \<noteq> [] \<longrightarrow>
        page_choices (last new) =
          (if open_chunk node (length (sections node) - 1) (last (sections node)) \<noteq> []
           then Some (choices node) else None))"
proof -
  define st1 where "st1 =
    (case backgroundImagePrompt node of None \<Rightarrow> st
     | Some p \<Rightarrow> if p \<noteq> [] \<and> (i = 0 \<or> gm = INTERACTIVE)
                then push_page (visual_page node p) st else st)"
  have v: "generatedPages st1 = generatedPages st @ visual_part gm i node (globalPageCount st)"
    by (simp add: st1_def visual_part_def split: option.splits)
  have pn: "process_node gm st (i, node) =
     foldl (process_section node (length (sections node))) st1 (enumerate 0 (sections node))"
    by (simp add: process_node_def st1_def Let_def)
  have "0 + length (sections node) = length (sections node)" by simp
  from sections_fold_emits [OF this, of node st1] show ?thesis
    unfolding pn v by simp
qed

lemma generate_take_Suc:
  "k < length h \<Longrightarrow>
   generate gm (take (Suc k) h) = process_node gm (generate gm (take k h)) (k, h ! k)"
  using generate_snoc [of gm "take k h" "h ! k"]
  by (simp add: take_Suc_conv_app_nth)

lemma node_pages_eq:
  assumes "k < length h"
  shows "generatedPages (generate gm (take (Suc k) h))
         = generatedPages (generate gm (take k h)) @ node_pages gm h k"
proof -
  from node_emits [of gm "generate gm (take k h)" k "h ! k"] obtain new where
    "generatedPages (process_node gm (generate gm (take k h)) (k, h ! k))
       = generatedPages (generate gm (take k h)) @
         visual_part gm k (h ! k) (globalPageCount (generate gm (take k h))) @ new"
    by blast
  then show ?thesis
    by (simp add: node_pages_def generate_take_Suc [OF assms])
qed

lemma generated_concat:
  "k \<le> length h \<Longrightarrow>
   generatedPages (generate gm (take k h)) = concat (map (node_pages gm h) [0..<k])"
proof (induction k)
  case 0
  then show ?case by (simp add: generate_def init_state_def)
next
  case (Suc k)
  then show ?case
    by (simp add: node_pages_eq)
qed

lemma node_pages_shape:
  assumes "k < length h"
  shows "\<exists>new.
     node_pages gm h k
       = visual_part gm k (h ! k) (globalPageCount (generate gm (take k h))) @ new \<and>
     length (sections (h ! k)) \<le> length new \<and>
     list_all (\<lambda>p. page_type p = TEXT) new \<and>
     concat (map tokens new) = concat (map (\<lambda>s. split_space (body s)) (sections (h ! k))) \<and>
     list_all (\<lambda>p. page_choices p = None) (butlast new) \<and>
     (sections (h ! k) \<noteq> [] \<longrightarrow>
        page_choices (last new) =
          (if open_chunk (h ! k) (length (sections (h ! k)) - 1) (last (sections (h ! k))) \<noteq> []
           then Some (choices (h ! k)) else None))"
proof -
  from node_emits [of gm "generate gm (take k h)" k "h ! k"] obtain new where
    n: "generatedPages (process_node gm (generate gm (take k h)) (k, h ! k))
       = generatedPages (generate gm (take k h)) @
         visual_part gm k (h ! k) (globalPageCount (generate gm (take k h))) @ new"
    and r: "length (sections (h ! k)) \<le> length new"
     "list_all (\<lambda>p. page_type p = TEXT) new"
     "concat (map tokens new) = concat (map (\<lambda>s. split_space (body s)) (sections (h ! k)))"
     "list_all (\<lambda>p. page_choices p = None) (butlast new)"
     "sections (h ! k) \<noteq> [] \<longrightarrow>
        page_choices (last new) =
          (if open_chunk (h ! k) (length (sections (h ! k)) - 1) (last (sections (h ! k))) \<noteq> []
           then Some (choices (h ! k)) else None)"
    by blast
  from n have "node_pages gm h k
       = visual_part gm k (h ! k) (globalPageCount (generate gm (take k h))) @ new"
    by (simp add: node_pages_def generate_take_Suc [OF assms])
  with r show ?thesis by blast
qed

lemma paginate_concat:
  "paginate gm h =
     concat (map (node_pages gm h) [0..<length h]) @
     (if odd (length (concat (map (node_pages gm h) [0..<length h])))
      then [filler_page (Suc (length (concat (map (node_pages gm h) [0..<length h]))))]
      else [])"
  using generated_concat [of "length h" h gm]
  by (simp add: paginate_eq)

lemma visual_part_type:
  "list_all (\<lambda>p. page_type p = FULL_IMAGE \<and> page_choices p = None) (visual_part gm i node n) \<and>
   length (visual_part gm i node n) \<le> 1"
  by (simp add: visual_part_def split: option.splits)

lemma filter_text_split:
  assumes "list_all (\<lambda>p. page_type p = FULL_IMAGE \<and> page_choices p = None) vs"
    and "list_all (\<lambda>p. page_type p = TEXT) new"
  shows "filter (\<lambda>p. page_type p = TEXT) (vs @ new) = new"
proof -
  have "filter (\<lambda>p. page_type p = TEXT) vs = []"
    using assms(1) by (induction vs) auto
  moreover have "filter (\<lambda>p. page_type p = TEXT) new = new"
    using assms(2) by (induction new) auto
  ultimately show ?thesis by simp
qed

lemma node_text_pages:
  assumes "k < length h"
  shows "concat (map tokens (filter (\<lambda>p. page_type p = TEXT) (node_pages gm h k)))
           = concat (map (\<lambda>s. split_space (body s)) (sections (h ! k))) \<and>
         length (sections (h ! k))
           \<le> length (filter (\<lambda>p. page_type p = TEXT) (node_pages gm h k)) \<and>
         (sections (h ! k) = [] \<longrightarrow>
            filter (\<lambda>p. page_type p = TEXT) (node_pages gm h k) = [] \<and>
            node_pages gm h k
              = visual_part gm k (h ! k) (globalPageCount (generate gm (take k h))))"
proof -
  from node_pages_shape [OF assms, of gm] obtain new where
    n: "node_pages gm h k
       = visual_part gm k (h ! k) (globalPageCount (generate gm (take k h))) @ new"
    and l: "length (sections (h ! k)) \<le> length new"
    and t: "list_all (\<lambda>p. page_type p = TEXT) new"
    and w: "concat (map tokens new)
            = concat (map (\<lambda>s. split_space (body s)) (sections (h ! k)))"
    by blast
  have f: "filter (\<lambda>p. page_type p = TEXT) (node_pages gm h k) = new"
    unfolding n using visual_part_type t by (blast intro: filter_text_split)
  have e: "sections (h ! k) = [] \<longrightarrow> new = []"
  proof
    assume "sections (h ! k) = []"
    then have "concat (map tokens new) = []"
      using w by simp
    then show "new = []"
      by (cases new) (simp_all add: tokens_def)
  qed
  have g: "sections (h ! k) = [] \<longrightarrow>
      filter (\<lambda>p. page_type p = TEXT) (node_pages gm h k) = [] \<and>
      node_pages gm h k = visual_part gm k (h ! k) (globalPageCount (generate gm (take k h)))"
  proof
    assume "sections (h ! k) = []"
    with e have ne: "new = []" by simp
    from f ne have "filter (\<lambda>p. page_type p = TEXT) (node_pages gm h k) = []"
      by (simp only:)
    moreover from n ne have "node_pages gm h k
        = visual_part gm k (h ! k) (globalPageCount (generate gm (take k h)))"
      by (simp only: append_Nil2)
    ultimately show "filter (\<lambda>p. page_type p = TEXT) (node_pages gm h k) = [] \<and>
      node_pages gm h k = visual_part gm k (h ! k) (globalPageCount (generate gm (take k h)))"
      by (rule conjI)
  qed
  from f l have "length (sections (h ! k))
           \<le> length (filter (\<lambda>p. page_type p = TEXT) (node_pages gm h k))"
    by (simp only:)
  moreover from f w have "concat (map tokens (filter (\<lambda>p. page_type p = TEXT) (node_pages gm h k)))
           = concat (map (\<lambda>s. split_space (body s)) (sections (h ! k)))"
    by (simp only:)
  ultimately show ?thesis
    using g by blast
qed


lemma trim_empty: "(trim s = []) = list_all is_space s"
proof -
  have "(dropWhile is_space (rev (dropWhile is_space s)) = []) = (dropWhile is_space s = [])"
  proof (cases "dropWhile is_space s")
    case Nil
    then show ?thesis by (simp only: rev.simps dropWhile.simps)
  next
    case (Cons a as)
    then have "\<not> is_space a"
      using hd_dropWhile [of is_space s] by auto
    then show ?thesis
      using Cons by (auto simp: dropWhile_eq_Nil_conv)
  qed
  then show ?thesis
    by (simp add: trim_def dropWhile_eq_Nil_conv list_all_iff)
qed

lemma not_space_hash: "\<not> is_space 0x23"
  by (simp add: is_space_def)

lemma match_marker_spaces: "list_all is_space s \<Longrightarrow> match_marker s = None"
  by (induction s rule: match_marker.induct) (auto simp: not_space_hash)

lemma has_marker_spaces: "list_all is_space s \<Longrightarrow> \<not> has_marker s"
  by (induction s) (simp_all add: match_marker_spaces del: match_marker.simps)

lemma split_no_marker: "\<not> has_marker s \<Longrightarrow> split_marker acc s = [rev acc @ s]"
  by (induction s arbitrary: acc) (simp_all del: match_marker.simps)

lemma is_space_newline [simp]: "is_space newline"
  by (simp add: is_space_def newline_def)

lemma sections_blank:
  assumes "trim (content node) = []"
  shows "sections node = []"
proof -
  from assms have a: "list_all is_space (newline # content node)"
    by (simp add: trim_empty)
  then have "\<not> has_marker (newline # content node)"
    by (rule has_marker_spaces)
  then have "split_marker [] (newline # content node) = [rev [] @ newline # content node]"
    by (rule split_no_marker)
  then have "rawSections node = [newline # content node]"
    unfolding rawSections_def by (simp only: rev.simps append_Nil)
  moreover have "trim (newline # content node) = []"
    using a by (simp only: trim_empty)
  ultimately show ?thesis
    by (simp add: sections_def make_section_def keep_section_def)
qed

lemma trim_newline: "trim (newline # s) = trim s"
  by (simp add: trim_def)

lemma starts_with_trim:
  assumes "starts_with (js ''##'') s"
  shows "starts_with (js ''##'') (trim s)"
proof -
  from assms obtain rest where s: "s = 0x23 # 0x23 # rest"
    by (cases s; cases "tl s") (auto simp: starts_with_def js_def)
  have ns: "\<not> is_space (0x23)"
    by (simp add: is_space_def)
  have "dropWhile is_space (rev rest @ [0x23, 0x23])
        = dropWhile is_space (rev rest) @ [0x23, 0x23]"
    using ns by (simp add: dropWhile_append3)
  then have "trim s = 0x23 # 0x23 # rev (dropWhile is_space (rev rest))"
    using ns by (simp add: trim_def s)
  then show ?thesis
    by (simp add: starts_with_def js_def)
qed

lemma match_marker_starts:
  "match_marker (newline # s) \<noteq> None \<Longrightarrow> starts_with (js ''##'') s"
  by (cases s; cases "tl s"; cases "tl (tl s)")
     (auto simp: starts_with_def js_def split: if_splits)

lemma clean_title_id: "\<not> starts_with (js ''#'') t \<Longrightarrow> clean_title t = t"
  by (simp add: clean_title_def)

lemma suffix_one: "suffix [p] (v @ [c]) = (p = c)"
  using snoc_suffix_snoc [of "[]" p v c] by simp

lemma suffix_two: "suffix [p, q] (u @ [d, c]) = (p = d \<and> q = c)"
  using snoc_suffix_snoc [of "[p]" q "u @ [d]" c] suffix_one [of p u d] by auto

lemma suffix_two_one: "\<not> suffix [p, q] [c]"
  by (auto simp: suffix_def)

lemma ends_sentence_spec: "ends_sentence w = spec_sentence_end w"
proof (cases w rule: rev_cases)
  case Nil
  then show ?thesis
    by (simp add: ends_sentence_def spec_sentence_end_def js_def)
next
  case (snoc v c)
  note w = snoc
  show ?thesis
  proof (cases v rule: rev_cases)
    case Nil
    have "suffix [p] [c] = (p = c)" for p
      using suffix_one [of p "[]" c] by simp
    with w Nil show ?thesis
      by (auto simp: ends_sentence_def spec_sentence_end_def is_final_punct_def
                     suffix_two_one js_def)
  next
    case (snoc u d)
    have "suffix [p] (u @ [d, c]) = (p = c)" for p
      using suffix_one [of p "u @ [d]" c] by simp
    with w snoc show ?thesis
      by (auto simp: ends_sentence_def spec_sentence_end_def is_final_punct_def
                     suffix_two js_def)
  qed
qed

lemma page_limit_spec: "page_limit first sec = spec_budget (first \<and> isNewChapter sec)"
  by (simp add: page_limit_def spec_budget_def WORDS_PER_PAGE_def)

lemma find_first:
  assumes "0 < k" "k \<le> L" "P k" "\<forall>m. 0 < m \<and> m < k \<longrightarrow> \<not> P m"
  shows "find P [1..<Suc L] = Some k"
proof -
  have "k - 1 < length [1..<Suc L]"
    using assms(1,2) by simp
  moreover have "[1..<Suc L] ! (k - 1) = k"
    using assms(1,2) by (simp add: nth_upt del: upt_Suc)
  moreover have "\<forall>j<k - 1. \<not> P ([1..<Suc L] ! j)"
    using assms by (simp add: nth_upt del: upt_Suc)
  ultimately show ?thesis
    using assms(3) unfolding find_Some_iff by (metis (no_types, lifting))
qed

lemma find_none:
  assumes "\<forall>m. 0 < m \<and> m \<le> L \<longrightarrow> \<not> P m"
  shows "find P [1..<Suc L] = None"
  using assms by (auto simp: find_None_iff simp del: upt_Suc)

lemma spec_pack_open:
  assumes "\<forall>m. 0 < m \<and> m \<le> length ws \<longrightarrow> \<not> spec_closes b (take m ws)"
  shows "spec_pack b ws = (if ws = [] then [] else [ws])"
  using find_none [of "length ws" "\<lambda>m. spec_closes b (take m ws)"] assms
  by (subst spec_pack.simps) simp

lemma spec_pack_close:
  assumes "spec_closes b chunk"
    and "\<forall>m. 0 < m \<and> m < length chunk \<longrightarrow> \<not> spec_closes b (take m chunk)"
  shows "spec_pack b (chunk @ ws) = chunk # spec_pack (spec_budget False) ws"
proof -
  from assms(1) have ne: "chunk \<noteq> []"
    by (simp add: spec_closes_def)
  have "find (\<lambda>m. spec_closes b (take m (chunk @ ws))) [1..<Suc (length (chunk @ ws))]
        = Some (length chunk)"
  proof (rule find_first)
    show "0 < length chunk" using ne by simp
    show "length chunk \<le> length (chunk @ ws)" by simp
    show "spec_closes b (take (length chunk) (chunk @ ws))"
      using assms(1) by simp
    show "\<forall>m. 0 < m \<and> m < length chunk \<longrightarrow> \<not> spec_closes b (take m (chunk @ ws))"
      using assms(2) by simp
  qed
  then show ?thesis
    using ne by (subst spec_pack.simps) simp
qed

lemma pack_spec:
  assumes "list_all no_space (chunk @ ws)"
    and "\<forall>m. 0 < m \<and> m \<le> length chunk \<longrightarrow>
           \<not> spec_closes (page_limit first sec) (take m chunk)"
  shows "\<exists>new.
     generatedPages (snd (snd (pack_words node sIdx sec ws (chunk, first, st))))
       = generatedPages st @ new \<and>
     map tokens new @
       (if fst (pack_words node sIdx sec ws (chunk, first, st)) = [] then []
        else [fst (pack_words node sIdx sec ws (chunk, first, st))])
       = spec_pack (page_limit first sec) (chunk @ ws)"
  using assms
proof (induction ws arbitrary: chunk first st)
  case Nil
  then show ?case
    by (simp add: spec_pack_open)
next
  case (Cons w ws)
  let ?chunk = "chunk @ [w]"
  let ?limit = "page_limit first sec"
  have cl: "(length ?chunk \<ge> ?limit \<and> (ends_sentence w \<or> length ?chunk > ?limit + 20))
            = spec_closes ?limit ?chunk"
    by (auto simp: spec_closes_def ends_sentence_spec)
  have below: "\<forall>m. 0 < m \<and> m < length ?chunk \<longrightarrow> \<not> spec_closes ?limit (take m ?chunk)"
    using Cons.prems(2) by simp
  show ?case
  proof (cases "spec_closes ?limit ?chunk")
    case True
    let ?pg = "closed_page node sIdx sec ?chunk first (globalPageCount st)"
    let ?st1 = "push_page (closed_page node sIdx sec ?chunk first) st"
    have eq: "pack_words node sIdx sec (w # ws) (chunk, first, st)
              = pack_words node sIdx sec ws ([], False, ?st1)"
      using True cl by (auto simp: Let_def)
    from Cons.prems have ns: "list_all no_space ([] @ ws)" and nc: "list_all no_space ?chunk"
      by simp_all
    have i0: "\<forall>m. 0 < m \<and> m \<le> length ([]::jsstring list) \<longrightarrow>
           \<not> spec_closes (page_limit False sec) (take m [])"
      by simp
    from Cons.IH [OF ns i0, of ?st1] obtain new where
      n1: "generatedPages (snd (snd (pack_words node sIdx sec ws ([], False, ?st1))))
            = generatedPages ?st1 @ new"
      and n2: "map tokens new @
         (if fst (pack_words node sIdx sec ws ([], False, ?st1)) = [] then []
          else [fst (pack_words node sIdx sec ws ([], False, ?st1))])
         = spec_pack (page_limit False sec) ([] @ ws)"
      by blast
    have tk: "tokens ?pg = ?chunk"
      using nc by (simp add: tokens_def split_join)
    have sp: "spec_pack ?limit (chunk @ w # ws) = ?chunk # spec_pack (spec_budget False) ws"
      using spec_pack_close [OF True below, of ws] by simp
    have "generatedPages (snd (snd (pack_words node sIdx sec (w # ws) (chunk, first, st))))
            = generatedPages st @ (?pg # new)"
      unfolding eq using n1 by simp
    moreover have "map tokens (?pg # new) @
       (if fst (pack_words node sIdx sec (w # ws) (chunk, first, st)) = [] then []
        else [fst (pack_words node sIdx sec (w # ws) (chunk, first, st))])
       = spec_pack ?limit (chunk @ w # ws)"
      unfolding eq sp using n2 tk by (simp add: page_limit_spec)
    ultimately show ?thesis by blast
  next
    case False
    have eq: "pack_words node sIdx sec (w # ws) (chunk, first, st)
              = pack_words node sIdx sec ws (?chunk, first, st)"
      using False cl by (auto simp: Let_def)
    from Cons.prems have ns: "list_all no_space (?chunk @ ws)" by simp
    have inv: "\<forall>m. 0 < m \<and> m \<le> length ?chunk \<longrightarrow>
           \<not> spec_closes ?limit (take m ?chunk)"
    proof (intro allI impI)
      fix m
      assume m: "0 < m \<and> m \<le> length ?chunk"
      show "\<not> spec_closes ?limit (take m ?chunk)"
      proof (cases "m < length ?chunk")
        case True
        with m below show ?thesis by blast
      next
        case False
        with m have "take m ?chunk = ?chunk" by simp
        with \<open>\<not> spec_closes ?limit ?chunk\<close> show ?thesis by simp
      qed
    qed
    from Cons.IH [OF ns inv, of st] show ?thesis
      unfolding eq by simp
  qed
qed

lemma pack_loop_eq:
  "i \<le> length words \<Longrightarrow>
   pack_loop node sIdx sec words i s = Inr (pack_words node sIdx sec (drop i words) s)"
proof (induction "length words - i" arbitrary: i s)
  case 0
  obtain c f st where s: "s = (c, f, st)" by (cases s)
  from 0 show ?case
    by (simp add: s pack_loop.simps)
next
  case (Suc n)
  obtain c f st where s: "s = (c, f, st)" by (cases s)
  from Suc.hyps(2) have lt: "i < length words" by simp
  then have d: "drop i words = words ! i # drop (Suc i) words"
    by (simp add: Cons_nth_drop_Suc)
  have n: "nth_opt words i = Some (words ! i)"
    using lt by (simp add: nth_opt_def)
  have m: "n = length words - Suc i" "Suc i \<le> length words"
    using Suc.hyps(2) by simp_all
  have ih: "pack_loop node sIdx sec words (Suc i) s'
            = Inr (pack_words node sIdx sec (drop (Suc i) words) s')" for s'
    by (rule Suc.hyps(1) [OF m])
  show ?case
    unfolding s d
    by (subst pack_loop.simps) (auto simp: lt n ih Let_def)
qed

lemma section_adds_text:
  "length (generatedPages st)
     < length (generatedPages (process_section node n st (sIdx, sec))) \<and>
   list_all (\<lambda>p. page_type p = TEXT)
     (drop (length (generatedPages st))
        (generatedPages (process_section node n st (sIdx, sec))))"
proof -
  from section_emits [of node n st sIdx sec] obtain new where
    a: "generatedPages (process_section node n st (sIdx, sec)) = generatedPages st @ new"
    and b: "new \<noteq> []" and c: "list_all (\<lambda>p. page_type p = TEXT) new"
    by blast
  from b have "0 < length new" by simp
  with a c show ?thesis by simp
qed

section \<open>Claims\<close>

text \<open>
  C4 (monotonic numbering). For every game mode and history, the \<open>pageNumber\<close> fields of
  the produced pages, in output order, are exactly 1, 2, 3, ... up to the number of pages:
  increasing by one from 1, without gap or repeat, over illustration pages, text pages of
  every fragment and section, and the filler page.
\<close>

theorem page_numbers_consecutive:
  "map pageNumber (paginate gm h) = [1..<Suc (length (paginate gm h))]"
  using numbered_generate [of gm h]
  by (auto simp: paginate_eq numbered_def)

theorem page_numbers_consecutive_witness:
  "map pageNumber (paginate INTERACTIVE
     [\<lparr>node_id = js ''n1'', chapterTitle = js ''T'', content = js ''a b'', choices = [],
       backgroundImagePrompt = None\<rparr>,
      \<lparr>node_id = js ''n2'', chapterTitle = js ''U'', content = js ''c'', choices = [],
       backgroundImagePrompt = Some (js ''img'')\<rparr>])
   = [1, 2, 3, 4]"
proof -
  have l: "length (paginate INTERACTIVE
     [\<lparr>node_id = js ''n1'', chapterTitle = js ''T'', content = js ''a b'', choices = [],
       backgroundImagePrompt = None\<rparr>,
      \<lparr>node_id = js ''n2'', chapterTitle = js ''U'', content = js ''c'', choices = [],
       backgroundImagePrompt = Some (js ''img'')\<rparr>]) = 4"
    by code_simp
  have u: "[1..<Suc 4] = [1, 2, 3, 4::nat]"
    by code_simp
  from page_numbers_consecutive [of INTERACTIVE
     "[\<lparr>node_id = js ''n1'', chapterTitle = js ''T'', content = js ''a b'', choices = [],
       backgroundImagePrompt = None\<rparr>,
      \<lparr>node_id = js ''n2'', chapterTitle = js ''U'', content = js ''c'', choices = [],
       backgroundImagePrompt = Some (js ''img'')\<rparr>]"]
  show ?thesis by (simp only: l u)
qed

text \<open>
  C3 (evenness). For every game mode and history the number of produced pages is even.
  The output is the page list built by the loop over the history, followed, exactly when
  that list has odd length, by one filler page: empty content, empty chapter title, and
  the next page number.
\<close>

theorem paginate_even:
  "even (length (paginate gm h)) \<and>
   paginate gm h =
     generatedPages (generate gm h) @
     (if odd (length (generatedPages (generate gm h)))
      then [\<lparr>page_id = js ''filler-end'', page_type = TEXT, page_content = [],
             imagePrompt = None, page_choices = None,
             pageNumber = Suc (length (generatedPages (generate gm h))),
             page_chapterTitle = Some [], isChapterStart = None\<rparr>]
      else [])"
  by (simp add: paginate_eq filler_page_def)

theorem paginate_even_witness:
  "even (length (paginate INTERACTIVE [\<lparr>node_id = js ''n1'', chapterTitle = js ''T'', content = js ''a b'', choices = [],
       backgroundImagePrompt = None\<rparr>])) \<and>
   paginate INTERACTIVE [\<lparr>node_id = js ''n1'', chapterTitle = js ''T'', content = js ''a b'', choices = [],
       backgroundImagePrompt = None\<rparr>] =
     [\<lparr>page_id = js ''n1-sec0-end'', page_type = TEXT, page_content = 0x0A # js ''a b'',
       imagePrompt = None, page_choices = Some [], pageNumber = 1,
       page_chapterTitle = Some (js ''T''), isChapterStart = Some False\<rparr>,
      \<lparr>page_id = js ''filler-end'', page_type = TEXT, page_content = [],
       imagePrompt = None, page_choices = None, pageNumber = 2,
       page_chapterTitle = Some [], isChapterStart = None\<rparr>]"
proof -
  have g: "generatedPages (generate INTERACTIVE [\<lparr>node_id = js ''n1'', chapterTitle = js ''T'', content = js ''a b'', choices = [],
       backgroundImagePrompt = None\<rparr>]) =
     [\<lparr>page_id = js ''n1-sec0-end'', page_type = TEXT, page_content = 0x0A # js ''a b'',
       imagePrompt = None, page_choices = Some [], pageNumber = 1,
       page_chapterTitle = Some (js ''T''), isChapterStart = Some False\<rparr>]"
    by code_simp
  from paginate_even [of INTERACTIVE "[\<lparr>node_id = js ''n1'', chapterTitle = js ''T'', content = js ''a b'', choices = [],
       backgroundImagePrompt = None\<rparr>]"]
  show ?thesis by (simp add: g)
qed

text \<open>
  C10 (prefix stability under history growth). For a fixed game mode, the pages of
  \<open>paginate gm h\<close> other than the filler page are an initial segment of
  \<open>paginate gm (h @ [f])\<close>: the same page records (ids, numbers, content, choices) in
  the same positions. Appending a fragment changes no earlier page; only the filler page
  is dropped and derived again.
\<close>

theorem paginate_prefix_stable:
  "prefix (without_filler (paginate gm h)) (paginate gm (h @ [f]))"
proof -
  have "prefix (generatedPages (generate gm h)) (generatedPages (generate gm (h @ [f])))"
    by (simp add: generate_snoc prefix_node)
  moreover have "prefix (generatedPages (generate gm (h @ [f]))) (paginate gm (h @ [f]))"
    by (simp add: paginate_eq)
  ultimately have "prefix (generatedPages (generate gm h)) (paginate gm (h @ [f]))"
    by (rule prefix_order.trans)
  then show ?thesis
    by (simp add: without_filler_paginate)
qed

theorem paginate_prefix_stable_witness:
  "prefix
     [\<lparr>page_id = js ''n1-sec0-end'', page_type = TEXT, page_content = 0x0A # js ''a b'',
       imagePrompt = None, page_choices = Some [], pageNumber = 1,
       page_chapterTitle = Some (js ''T''), isChapterStart = Some False\<rparr>]
     (paginate INTERACTIVE
        [\<lparr>node_id = js ''n1'', chapterTitle = js ''T'', content = js ''a b'', choices = [],
       backgroundImagePrompt = None\<rparr>,
         \<lparr>node_id = js ''n2'', chapterTitle = js ''U'', content = js ''c'', choices = [],
       backgroundImagePrompt = Some (js ''img'')\<rparr>])"
proof -
  have e: "without_filler (paginate INTERACTIVE [\<lparr>node_id = js ''n1'', chapterTitle = js ''T'', content = js ''a b'', choices = [],
       backgroundImagePrompt = None\<rparr>]) =
     [\<lparr>page_id = js ''n1-sec0-end'', page_type = TEXT, page_content = 0x0A # js ''a b'',
       imagePrompt = None, page_choices = Some [], pageNumber = 1,
       page_chapterTitle = Some (js ''T''), isChapterStart = Some False\<rparr>]"
    by code_simp
  from paginate_prefix_stable [of INTERACTIVE "[\<lparr>node_id = js ''n1'', chapterTitle = js ''T'', content = js ''a b'', choices = [],
       backgroundImagePrompt = None\<rparr>]"
      "\<lparr>node_id = js ''n2'', chapterTitle = js ''U'', content = js ''c'', choices = [],
       backgroundImagePrompt = Some (js ''img'')\<rparr>"]
  show ?thesis by (simp add: e)
qed

text \<open>
  C8 (navigator bounds). \<open>handleNextFlip\<close> adds 2 to the index exactly when the index is
  below \<open>pages.length - 2\<close> and otherwise leaves it; \<open>handlePrevFlip\<close> subtracts 2 exactly
  when the index is positive and otherwise leaves it. From an even index between 0 and
  \<open>pages.length - 2\<close>, with an even positive page count, every run of at least
  \<open>(pages.length - 2 - i) / 2\<close> forward flips ends at \<open>pages.length - 2\<close>, and every run
  of at least \<open>i / 2\<close> backward flips ends at 0.
\<close>

theorem navigator_bounds:
  assumes "even pc" "0 < pc" "even i" "0 \<le> i" "i \<le> int pc - 2"
  shows "handleNextFlip pc i = (if i < int pc - 2 then i + 2 else i) \<and>
         handlePrevFlip i = (if 0 < i then i - 2 else i) \<and>
         (\<forall>n. nat ((int pc - 2 - i) div 2) \<le> n \<longrightarrow>
              (handleNextFlip pc ^^ n) i = int pc - 2) \<and>
         (\<forall>n. nat (i div 2) \<le> n \<longrightarrow> (handlePrevFlip ^^ n) i = 0)"
proof -
  from assms obtain a b where ab: "i = 2 * a" "int pc = 2 * b"
    by (metis evenE even_of_nat)
  have 1: "\<forall>n. nat ((int pc - 2 - i) div 2) \<le> n \<longrightarrow>
              (handleNextFlip pc ^^ n) i = int pc - 2"
  proof (intro allI impI)
    fix n
    assume "nat ((int pc - 2 - i) div 2) \<le> n"
    then have "int pc - 2 \<le> i + 2 * int n"
      using ab by auto
    then show "(handleNextFlip pc ^^ n) i = int pc - 2"
      using next_iter [OF assms(1,3,5), of n] by simp
  qed
  have 2: "\<forall>n. nat (i div 2) \<le> n \<longrightarrow> (handlePrevFlip ^^ n) i = 0"
  proof (intro allI impI)
    fix n
    assume "nat (i div 2) \<le> n"
    then have "i - 2 * int n \<le> 0"
      using ab by auto
    then show "(handlePrevFlip ^^ n) i = 0"
      using prev_iter [OF assms(3,4), of n] by simp
  qed
  from 1 2 show ?thesis
    by (simp add: handleNextFlip_def handlePrevFlip_def)
qed

theorem navigator_bounds_witness:
  "handleNextFlip 6 2 = 4 \<and> handlePrevFlip 2 = 0 \<and>
   (handleNextFlip 6 ^^ 1) 2 = 4 \<and> (handleNextFlip 6 ^^ 5) 2 = 4 \<and>
   (handlePrevFlip ^^ 1) 2 = 0 \<and> (handlePrevFlip ^^ 7) 2 = 0"
proof -
  have h: "even (6::nat)" "0 < (6::nat)" "even (2::int)" "0 \<le> (2::int)" "(2::int) \<le> int 6 - 2"
    by simp_all
  from navigator_bounds [OF h]
  have a: "handleNextFlip 6 2 = 4" and b: "handlePrevFlip 2 = 0"
    and c: "\<forall>n. nat ((int 6 - 2 - 2) div 2) \<le> n \<longrightarrow> (handleNextFlip 6 ^^ n) 2 = int 6 - 2"
    and d: "\<forall>n. nat (2 div 2) \<le> n \<longrightarrow> (handlePrevFlip ^^ n) 2 = 0"
    by simp_all
  from a b c [rule_format, of 1] c [rule_format, of 5] d [rule_format, of 1]
    d [rule_format, of 7]
  show ?thesis by simp
qed


text \<open>
  C9 (character merge). The updates are applied one after the other, in list order. An
  update whose name equals the name of an entry is merged over the first such entry: each
  field the update has replaces the entry's, the other fields stay. An update that matches
  no entry is appended when it has a non-empty name, a non-empty role and an affinity, and
  is dropped otherwise; the collection is then unchanged. The merge is a total function.
\<close>

theorem updateCharacters_merge:
  "updateCharacters cs [] = cs \<and>
   updateCharacters cs (u # us) = updateCharacters (apply_update cs u) us \<and>
   ((\<exists>c\<in>set cs. name c = name u) \<longrightarrow>
      (\<exists>i<length cs. name (cs ! i) = name u \<and> (\<forall>j<i. name (cs ! j) \<noteq> name u) \<and>
         apply_update cs u = cs[i := spread (cs ! i) u])) \<and>
   ((\<forall>c\<in>set cs. name c \<noteq> name u) \<longrightarrow>
      apply_update cs u =
        (if name u = None \<or> name u = Some [] \<or> role u = None \<or> role u = Some [] \<or>
            affinity u = None
         then cs else cs @ [u])) \<and>
   spread c u =
     \<lparr>name = (case name u of None \<Rightarrow> name c | Some v \<Rightarrow> Some v),
      role = (case role u of None \<Rightarrow> role c | Some v \<Rightarrow> Some v),
      affinity = (case affinity u of None \<Rightarrow> affinity c | Some v \<Rightarrow> Some v),
      status = (case status u of None \<Rightarrow> status c | Some v \<Rightarrow> Some v),
      description = (case description u of None \<Rightarrow> description c | Some v \<Rightarrow> Some v)\<rparr>"
proof -
  have 1: "(\<exists>c\<in>set cs. name c = name u) \<longrightarrow>
      (\<exists>i<length cs. name (cs ! i) = name u \<and> (\<forall>j<i. name (cs ! j) \<noteq> name u) \<and>
         apply_update cs u = cs[i := spread (cs ! i) u])"
  proof
    assume "\<exists>c\<in>set cs. name c = name u"
    then have "findIndex (\<lambda>c. name c = name u) cs \<noteq> None"
      by (simp add: findIndex_None)
    then obtain i where i: "findIndex (\<lambda>c. name c = name u) cs = Some i"
      by auto
    from findIndex_Some [OF i] i
    show "\<exists>i<length cs. name (cs ! i) = name u \<and> (\<forall>j<i. name (cs ! j) \<noteq> name u) \<and>
         apply_update cs u = cs[i := spread (cs ! i) u]"
      by (auto simp: apply_update_def)
  qed
  have 2: "(\<forall>c\<in>set cs. name c \<noteq> name u) \<longrightarrow>
      apply_update cs u =
        (if name u = None \<or> name u = Some [] \<or> role u = None \<or> role u = Some [] \<or>
            affinity u = None
         then cs else cs @ [u])"
  proof
    assume "\<forall>c\<in>set cs. name c \<noteq> name u"
    then have "findIndex (\<lambda>c. name c = name u) cs = None"
      by (simp add: findIndex_None)
    then show "apply_update cs u =
        (if name u = None \<or> name u = Some [] \<or> role u = None \<or> role u = Some [] \<or>
            affinity u = None
         then cs else cs @ [u])"
      by (auto simp: apply_update_def truthy_def split: option.splits)
  qed
  from 1 2 show ?thesis
    by (simp add: updateCharacters_def spread_def over_def)
qed

theorem updateCharacters_merge_witness:
  "apply_update
     [\<lparr>name = Some (js ''Ann''), role = Some (js ''hero''), affinity = Some 50,
        status = Some (js ''calm''), description = Some (js ''a knight'')\<rparr>]
     \<lparr>name = Some (js ''Bob''), role = None, affinity = Some 10,
        status = None, description = None\<rparr>
   = [\<lparr>name = Some (js ''Ann''), role = Some (js ''hero''), affinity = Some 50,
        status = Some (js ''calm''), description = Some (js ''a knight'')\<rparr>] \<and>
   updateCharacters
     [\<lparr>name = Some (js ''Ann''), role = Some (js ''hero''), affinity = Some 50,
        status = Some (js ''calm''), description = Some (js ''a knight'')\<rparr>]
     [\<lparr>name = Some (js ''Ann''), role = None, affinity = Some 60,
        status = None, description = None\<rparr>,
      \<lparr>name = Some (js ''Bob''), role = None, affinity = Some 10,
        status = None, description = None\<rparr>,
      \<lparr>name = Some (js ''Cy''), role = Some (js ''rival''), affinity = Some 0,
        status = None, description = None\<rparr>]
   = [\<lparr>name = Some (js ''Ann''), role = Some (js ''hero''), affinity = Some 60,
        status = Some (js ''calm''), description = Some (js ''a knight'')\<rparr>,
      \<lparr>name = Some (js ''Cy''), role = Some (js ''rival''), affinity = Some 0,
        status = None, description = None\<rparr>]"
proof -
  have n: "\<forall>c\<in>set [\<lparr>name = Some (js ''Ann''), role = Some (js ''hero''), affinity = Some 50,
        status = Some (js ''calm''), description = Some (js ''a knight'')\<rparr>].
             name c \<noteq> name \<lparr>name = Some (js ''Bob''), role = None, affinity = Some 10,
        status = None, description = None\<rparr>"
    by (simp add: js_def)
  from updateCharacters_merge [of
     "[\<lparr>name = Some (js ''Ann''), role = Some (js ''hero''), affinity = Some 50,
        status = Some (js ''calm''), description = Some (js ''a knight'')\<rparr>]"
     "\<lparr>name = Some (js ''Bob''), role = None, affinity = Some 10,
        status = None, description = None\<rparr>" "[]"
     "\<lparr>name = Some (js ''Ann''), role = Some (js ''hero''), affinity = Some 50,
        status = Some (js ''calm''), description = Some (js ''a knight'')\<rparr>"] n
  have "apply_update
     [\<lparr>name = Some (js ''Ann''), role = Some (js ''hero''), affinity = Some 50,
        status = Some (js ''calm''), description = Some (js ''a knight'')\<rparr>]
     \<lparr>name = Some (js ''Bob''), role = None, affinity = Some 10,
        status = None, description = None\<rparr>
   = [\<lparr>name = Some (js ''Ann''), role = Some (js ''hero''), affinity = Some 50,
        status = Some (js ''calm''), description = Some (js ''a knight'')\<rparr>]"
    by (simp add: js_def)
  moreover have "updateCharacters
     [\<lparr>name = Some (js ''Ann''), role = Some (js ''hero''), affinity = Some 50,
        status = Some (js ''calm''), description = Some (js ''a knight'')\<rparr>]
     [\<lparr>name = Some (js ''Ann''), role = None, affinity = Some 60,
        status = None, description = None\<rparr>,
      \<lparr>name = Some (js ''Bob''), role = None, affinity = Some 10,
        status = None, description = None\<rparr>,
      \<lparr>name = Some (js ''Cy''), role = Some (js ''rival''), affinity = Some 0,
        status = None, description = None\<rparr>]
   = [\<lparr>name = Some (js ''Ann''), role = Some (js ''hero''), affinity = Some 60,
        status = Some (js ''calm''), description = Some (js ''a knight'')\<rparr>,
      \<lparr>name = Some (js ''Cy''), role = Some (js ''rival''), affinity = Some 0,
        status = None, description = None\<rparr>]"
    by code_simp
  ultimately show ?thesis by simp
qed

text \<open>
  C1 (no word loss). \<open>node_pages gm h k\<close> are the pages that the loop adds for the
  fragment at position \<open>k\<close> of the history, and \<open>tokens p\<close> are the words of a page's
  content. For every fragment, the words of its text pages, concatenated in page order,
  are the words of its section bodies, in section order. The output consists of the pages
  of the fragments in history order, followed by at most one filler page, whose content
  is empty.
\<close>

theorem no_word_loss:
  "(\<forall>k<length h.
      concat (map tokens (filter (\<lambda>p. page_type p = TEXT) (node_pages gm h k)))
        = concat (map (\<lambda>s. split_space (body s)) (sections (h ! k)))) \<and>
   paginate gm h =
     concat (map (node_pages gm h) [0..<length h]) @
     (if odd (length (concat (map (node_pages gm h) [0..<length h])))
      then [filler_page (Suc (length (concat (map (node_pages gm h) [0..<length h]))))]
      else []) \<and>
   page_content (filler_page n) = []"
proof -
  have "\<forall>k<length h.
      concat (map tokens (filter (\<lambda>p. page_type p = TEXT) (node_pages gm h k)))
        = concat (map (\<lambda>s. split_space (body s)) (sections (h ! k)))"
    using node_text_pages by blast
  moreover have "page_content (filler_page n) = []"
    by (simp add: filler_page_def)
  ultimately show ?thesis
    using paginate_concat [of gm h] by blast
qed

theorem no_word_loss_witness:
  "concat (map tokens (filter (\<lambda>p. page_type p = TEXT)
     (node_pages INTERACTIVE
        [\<lparr>node_id = js ''n3'', chapterTitle = js ''T'',
       content = js ''x'' @ 0x0A # js ''## A'' @ 0x0A # js ''b c'', choices = [],
       backgroundImagePrompt = None\<rparr>] 0)))
   = [0x0A # js ''x'', js ''b'', js ''c'']"
proof -
  let ?h = "[\<lparr>node_id = js ''n3'', chapterTitle = js ''T'',
       content = js ''x'' @ 0x0A # js ''## A'' @ 0x0A # js ''b c'', choices = [],
       backgroundImagePrompt = None\<rparr>]"
  have s: "concat (map (\<lambda>s. split_space (body s)) (sections (?h ! 0)))
           = [0x0A # js ''x'', js ''b'', js ''c'']"
    by code_simp
  from no_word_loss [of ?h INTERACTIVE 0]
  have "\<forall>k<length ?h.
      concat (map tokens (filter (\<lambda>p. page_type p = TEXT) (node_pages INTERACTIVE ?h k)))
        = concat (map (\<lambda>s. split_space (body s)) (sections (?h ! k)))"
    by (rule conjunct1)
  then have "concat (map tokens (filter (\<lambda>p. page_type p = TEXT) (node_pages INTERACTIVE ?h 0)))
        = concat (map (\<lambda>s. split_space (body s)) (sections (?h ! 0)))"
    by simp
  then show ?thesis
    by (simp only: s)
qed




text \<open>
  Not covered by the statement above: when the last token of the last section closes a
  page inside the loop, no end page follows, and no page carries the choices. Here a
  chapter of 80 tokens, each ending a sentence, closes its only page at the budget.
\<close>

lemma choices_absent_at_exact_close:
  "map page_choices (paginate INTERACTIVE
     [\<lparr>node_id = js ''f1'', chapterTitle = js ''T'',
       content = js ''## A'' @ 0x0A # join_space (replicate 80 (js ''a.'')),
       choices = [\<lparr>choice_id = js ''c1'', choice_text = js ''go'', tone = brave\<rparr>],
       backgroundImagePrompt = None\<rparr>])
   = [None, None]"
  by code_simp

text \<open>
  C7 (empty input), as the code has it. A fragment whose content is empty or all white
  space has no section and no text page; its pages are its illustration page, if it gets
  one, and nothing else. Every fragment has at least as many text pages as sections, and
  every section, a chapter start with an empty body included, adds at least one page to
  the page list, and only text pages. Splitting and pagination do not fail: the marker
  split and the loops are terminating functions, and the loop over the words, written
  with its index and a read that can fail, never fails and returns what the recursion
  over the word list returns.
\<close>

theorem blank_fragment_pages:
  "(\<forall>k<length h. trim (content (h ! k)) = [] \<longrightarrow>
      sections (h ! k) = [] \<and>
      filter (\<lambda>p. page_type p = TEXT) (node_pages gm h k) = [] \<and>
      node_pages gm h k
        = visual_part gm k (h ! k) (globalPageCount (generate gm (take k h)))) \<and>
   (\<forall>k<length h.
      length (sections (h ! k))
        \<le> length (filter (\<lambda>p. page_type p = TEXT) (node_pages gm h k))) \<and>
   length (generatedPages st)
     < length (generatedPages (process_section node n st (sIdx, sec))) \<and>
   list_all (\<lambda>p. page_type p = TEXT)
     (drop (length (generatedPages st))
        (generatedPages (process_section node n st (sIdx, sec)))) \<and>
   pack_loop node sIdx sec ws 0 s = Inr (pack_words node sIdx sec ws s)"
proof -
  have "pack_loop node sIdx sec ws 0 s = Inr (pack_words node sIdx sec ws s)"
    using pack_loop_eq [of 0 ws node sIdx sec s] by simp
  then show ?thesis
    using node_text_pages [of _ h gm] sections_blank section_adds_text [of st node n sIdx sec]
    by blast
qed

theorem blank_fragment_pages_witness:
  "filter (\<lambda>p. page_type p = TEXT)
     (node_pages INTERACTIVE
        [\<lparr>node_id = js ''b2'', chapterTitle = js ''T'', content = [0xA0, 0x20, 0x3000, 0x0A],
       choices = [], backgroundImagePrompt = Some (js ''img'')\<rparr>] 0) = [] \<and>
   node_pages INTERACTIVE
        [\<lparr>node_id = js ''b2'', chapterTitle = js ''T'', content = [0xA0, 0x20, 0x3000, 0x0A],
       choices = [], backgroundImagePrompt = Some (js ''img'')\<rparr>] 0
   = [\<lparr>page_id = js ''b2-visual'', page_type = FULL_IMAGE, page_content = [],
       imagePrompt = Some (js ''img''), page_choices = None, pageNumber = 1,
       page_chapterTitle = Some (js ''T''), isChapterStart = None\<rparr>]"
proof -
  let ?h = "[\<lparr>node_id = js ''b2'', chapterTitle = js ''T'', content = [0xA0, 0x20, 0x3000, 0x0A],
       choices = [], backgroundImagePrompt = Some (js ''img'')\<rparr>]"
  have b: "trim (content (?h ! 0)) = []"
    by code_simp
  have v: "visual_part INTERACTIVE 0 (?h ! 0) (globalPageCount (generate INTERACTIVE (take 0 ?h)))
    = [\<lparr>page_id = js ''b2-visual'', page_type = FULL_IMAGE, page_content = [],
       imagePrompt = Some (js ''img''), page_choices = None, pageNumber = 1,
       page_chapterTitle = Some (js ''T''), isChapterStart = None\<rparr>]"
    by code_simp
  have l: "0 < length ?h"
    by simp
  from blank_fragment_pages [of ?h INTERACTIVE, THEN conjunct1, rule_format, OF l b]
  have "filter (\<lambda>p. page_type p = TEXT) (node_pages INTERACTIVE ?h 0) = [] \<and>
      node_pages INTERACTIVE ?h 0
        = visual_part INTERACTIVE 0 (?h ! 0) (globalPageCount (generate INTERACTIVE (take 0 ?h)))"
    by blast
  then show ?thesis
    unfolding v .
qed

text \<open>
  A history of one whitespace-only fragment without illustration prompt paginates to the
  empty page list.
\<close>

theorem blank_fragment_pages_counterexample:
  "trim (content \<lparr>node_id = js ''b1'', chapterTitle = js ''T'', content = js ''  '', choices = [],
       backgroundImagePrompt = None\<rparr>) = [] \<and>
   paginate INTERACTIVE
     [\<lparr>node_id = js ''b1'', chapterTitle = js ''T'', content = js ''  '', choices = [],
       backgroundImagePrompt = None\<rparr>] = [] \<and>
   paginate LINEAR
     (effectiveHistory []
       \<lparr>node_id = js ''b1'', chapterTitle = js ''T'', content = js ''  '', choices = [],
       backgroundImagePrompt = None\<rparr>) = []"
  by code_simp

text \<open>
  C6 (continuation rule), as the code has it. A fragment whose content has no marker, is
  not blank and, once trimmed, does not start with \<open>##\<close> splits into exactly one section:
  a continuation, whose body is the prepended line feed followed by the content and whose
  title is the fragment's \<open>chapterTitle\<close> without a leading run of \<open>#\<close> and the white
  space after it (the \<open>chapterTitle\<close> itself when it does not start with \<open>#\<close>). When
  the trimmed content starts with \<open>##\<close>, a zeroth element that is kept is a new chapter.
  A marker is a line feed, two hashes and at least one white space character of the class
  \<open>\s\<close>; trimming removes the same class.
\<close>

theorem single_section:
  "(\<not> has_marker (content node) \<and> trim (content node) \<noteq> [] \<and>
    \<not> starts_with (js ''##'') (trim (content node)) \<longrightarrow>
      sections node =
        [\<lparr>title = clean_title (chapterTitle node), body = newline # content node,
          isNewChapter = False\<rparr>]) \<and>
   (\<not> starts_with (js ''#'') (chapterTitle node) \<longrightarrow>
      clean_title (chapterTitle node) = chapterTitle node) \<and>
   (starts_with (js ''##'') (trim (content node)) \<and> make_section node 0 t = Some s \<longrightarrow>
      isNewChapter s)"
proof -
  have a: "sections node =
        [\<lparr>title = clean_title (chapterTitle node), body = newline # content node,
          isNewChapter = False\<rparr>]"
    if h: "\<not> has_marker (content node)" "trim (content node) \<noteq> []"
      "\<not> starts_with (js ''##'') (trim (content node))"
  proof -
    have "match_marker (newline # content node) = None"
      using h(3) match_marker_starts [of "content node"] starts_with_trim [of "content node"]
      by blast
    then have "\<not> has_marker (newline # content node)"
      using h(1) by (simp del: match_marker.simps)
    then have "split_marker [] (newline # content node) = [rev [] @ newline # content node]"
      by (rule split_no_marker)
    then have r: "rawSections node = [newline # content node]"
      unfolding rawSections_def by (simp only: rev.simps append_Nil)
    have "make_section node 0 (newline # content node) =
          Some \<lparr>title = clean_title (chapterTitle node), body = newline # content node,
                isNewChapter = False\<rparr>"
      using h(2,3) by (simp add: make_section_def trim_newline)
    then show ?thesis
      by (simp add: sections_def r keep_section_def)
  qed
  have c: "isNewChapter s"
    if "starts_with (js ''##'') (trim (content node))" "make_section node 0 t = Some s"
    using that by (auto simp: make_section_def Let_def split: if_splits option.splits)
  from a c show ?thesis
    by (simp add: clean_title_id)
qed

theorem single_section_witness:
  "sections \<lparr>node_id = js ''n1'', chapterTitle = js ''Chapter 1'', content = js ''one two'',
             choices = [], backgroundImagePrompt = None\<rparr>
   = [\<lparr>title = js ''Chapter 1'', body = 0x0A # js ''one two'', isNewChapter = False\<rparr>]"
proof -
  let ?n = "\<lparr>node_id = js ''n1'', chapterTitle = js ''Chapter 1'', content = js ''one two'',
             choices = [], backgroundImagePrompt = None\<rparr>"
  have h: "\<not> has_marker (content ?n) \<and> trim (content ?n) \<noteq> [] \<and>
           \<not> starts_with (js ''##'') (trim (content ?n))"
    by code_simp
  have c: "clean_title (js ''Chapter 1'') = js ''Chapter 1''" "newline = 0x0A"
    by code_simp+
  from single_section [of ?n] h
  have "sections ?n =
        [\<lparr>title = clean_title (chapterTitle ?n), body = newline # content ?n,
          isNewChapter = False\<rparr>]"
    by blast
  then show ?thesis
    by (simp add: c)
qed

text \<open>
  A chapter title with a leading hash is cleaned, and content with a space before the
  hashes is taken as a chapter start.
\<close>

theorem single_section_counterexample:
  "\<not> has_marker (js ''hello'') \<and> trim (js ''hello'') \<noteq> [] \<and> \<not> starts_with (js ''##'') (js ''hello'') \<and>
   sections \<lparr>node_id = js ''n1'', chapterTitle = js ''#1'', content = js ''hello'',
             choices = [], backgroundImagePrompt = None\<rparr>
   = [\<lparr>title = js ''1'', body = 0x0A # js ''hello'', isNewChapter = False\<rparr>] \<and>
   \<not> has_marker (js '' ##x'') \<and> trim (js '' ##x'') \<noteq> [] \<and> \<not> starts_with (js ''##'') (js '' ##x'') \<and>
   sections \<lparr>node_id = js ''n2'', chapterTitle = js ''T'', content = js '' ##x'',
             choices = [], backgroundImagePrompt = None\<rparr>
   = [\<lparr>title = [], body = js ''##x'', isNewChapter = True\<rparr>]"
  by code_simp

text \<open>
  White space outside ASCII: a no-break space after the hashes makes a marker, a fragment
  of one no-break space is blank, and a no-break space before the hashes is trimmed.
\<close>

lemma white_space_class_examples:
  "sections \<lparr>node_id = js ''n1'', chapterTitle = js ''T'',
             content = js ''intro'' @ 0x0A # js ''##'' @ 0xA0 # js ''A'' @ 0x0A # js ''body'',
             choices = [], backgroundImagePrompt = None\<rparr>
   = [\<lparr>title = js ''T'', body = 0x0A # js ''intro'', isNewChapter = False\<rparr>,
      \<lparr>title = js ''A'', body = js ''body'', isNewChapter = True\<rparr>] \<and>
   paginate INTERACTIVE
     [\<lparr>node_id = js ''n2'', chapterTitle = js ''T'', content = [0xA0],
       choices = [], backgroundImagePrompt = None\<rparr>] = [] \<and>
   sections \<lparr>node_id = js ''n3'', chapterTitle = js ''T'',
             content = 0xA0 # js ''##x'', choices = [], backgroundImagePrompt = None\<rparr>
   = [\<lparr>title = [], body = js ''##x'', isNewChapter = True\<rparr>]"
  by code_simp

text \<open>
  C2 (greedy packing rule). For every section and every state of the page list, the token
  lists of the pages that the section adds are the pages of the rule above, applied to the
  tokens of the section body (split on single spaces) with the budget of 130, or 80 for
  the first page when the section is a new chapter: each page closes at the first token
  at which the buffer has reached the budget and the token ends a sentence or the buffer
  exceeds the budget by more than 20 tokens, and tokens accumulate past the budget until
  then.
\<close>

theorem greedy_packing:
  "map tokens (drop (length (generatedPages st))
                 (generatedPages (process_section node n st (sIdx, sec))))
   = spec_pack (spec_budget (isNewChapter sec)) (split_space (body sec))"
proof -
  let ?ws = "split_space (body sec)"
  obtain c f st' where p: "pack_words node sIdx sec ?ws ([], True, st) = (c, f, st')"
    by (cases "pack_words node sIdx sec ?ws ([], True, st)")
  have ns: "list_all no_space ([] @ ?ws)"
    by (simp add: split_space_no_space)
  have i0: "\<forall>m. 0 < m \<and> m \<le> length ([]::jsstring list) \<longrightarrow>
           \<not> spec_closes (page_limit True sec) (take m [])"
    by simp
  from pack_spec [OF ns i0, of node sIdx st]
  have "\<exists>new. generatedPages st' = generatedPages st @ new \<and>
          map tokens new @ (if c = [] then [] else [c])
            = spec_pack (page_limit True sec) ?ws"
    by (simp add: p cong: if_cong)
  then obtain new where
    n1: "generatedPages st' = generatedPages st @ new"
    and n2: "map tokens new @ (if c = [] then [] else [c])
             = spec_pack (page_limit True sec) ?ws"
    by blast
  from pack_emits [OF ns, of node sIdx sec True st] p obtain new' where
    m1: "generatedPages st' = generatedPages st @ new'"
    and m3: "concat (map tokens new') @ c = ?ws"
    by auto
  have lo: "c \<noteq> [] \<or> \<not> f"
    using pack_leftover [of "[]" ?ws node sIdx sec True st] p by simp
  have nsc: "list_all no_space c"
  proof -
    have "list_all no_space (concat (map tokens new') @ c)"
      using m3 split_space_no_space [of "body sec"] by simp
    then show ?thesis by simp
  qed
  show ?thesis
  proof (cases "c = []")
    case True
    with lo have "\<not> f" by simp
    then have "process_section node n st (sIdx, sec) = st'"
      using True by (simp add: process_section_def p)
    then show ?thesis
      using n1 n2 True by (simp add: page_limit_spec)
  next
    case False
    let ?pg = "end_page node sIdx sec c f (sIdx = n - 1) (globalPageCount st')"
    have ps: "process_section node n st (sIdx, sec)
              = push_page (end_page node sIdx sec c f (sIdx = n - 1)) st'"
      using False by (simp add: process_section_def p)
    have tk: "tokens ?pg = c"
      using False nsc by (simp add: tokens_def split_join)
    show ?thesis
      using n1 n2 False tk by (simp add: ps page_limit_spec)
  qed
qed

theorem greedy_packing_witness:
  "map tokens (drop (length (generatedPages init_state))
     (generatedPages (process_section
        \<lparr>node_id = js ''n1'', chapterTitle = js ''T'', content = [], choices = [],
          backgroundImagePrompt = None\<rparr> 1 init_state
        (0, \<lparr>title = js ''A'', body = join_space (replicate 80 (js ''a.'') @ [js ''b'']),
              isNewChapter = True\<rparr>))))
   = [replicate 80 (js ''a.''), [js ''b'']]"
proof -
  let ?ws = "replicate 80 (js ''a.'') @ [js ''b'']"
  have ns: "list_all no_space ?ws"
    by (simp add: no_space_def list_all_iff js_def)
  have sp: "split_space (join_space ?ws) = ?ws"
    using ns by (intro split_join) simp_all
  have b: "spec_budget True = 80" "spec_budget False = 130"
    by (simp_all add: spec_budget_def)
  have se: "spec_sentence_end (js ''a.'')"
    by code_simp
  have c: "spec_closes 80 (replicate 80 (js ''a.''))"
    using se by (simp add: spec_closes_def)
  have n: "\<forall>m. 0 < m \<and> m < length (replicate 80 (js ''a.'')) \<longrightarrow>
             \<not> spec_closes 80 (take m (replicate 80 (js ''a.'')))"
    by (simp add: spec_closes_def)
  have o: "\<forall>m. 0 < m \<and> m \<le> length [js ''b''] \<longrightarrow> \<not> spec_closes 130 (take m [js ''b''])"
    by (simp add: spec_closes_def)
  have "spec_pack 80 ?ws = replicate 80 (js ''a.'') # spec_pack 130 [js ''b'']"
    using spec_pack_close [OF c n, of "[js ''b'']"] by (simp only: b)
  also have "spec_pack 130 [js ''b''] = [[js ''b'']]"
    using spec_pack_open [OF o] by simp
  finally have r: "spec_pack 80 ?ws = [replicate 80 (js ''a.''), [js ''b'']]" .
  from greedy_packing [of init_state
        "\<lparr>node_id = js ''n1'', chapterTitle = js ''T'', content = [], choices = [],
          backgroundImagePrompt = None\<rparr>" 1 0
        "\<lparr>title = js ''A'', body = join_space (replicate 80 (js ''a.'') @ [js ''b'']),
              isNewChapter = True\<rparr>"]
  show ?thesis
    by (simp only: ChapterSection.simps b sp r)
qed

end
